theory Spec2Isabelle
  imports Main "HOL-Library.AList" "HOL-Library.Product_Lexorder"
begin

section \<open>Data model of \<open>fasm2bels.py\<close>\<close>

text \<open>
  The development embeds the decode and resolve pipeline of the class \<open>Fasm2Bels\<close>
  (\<open>quicklogic/common/utils/fasm2bels.py\<close>). A grid location \<open>Loc(x, y)\<close> is a pair
  of Python integers. The named tuples \<open>Feature\<close>, \<open>RouteEntry\<close> and
  \<open>MultiLocCellMapping\<close> are records; the fields \<open>typ\<close> and \<open>value\<close> carry a
  prime or a prefix because the plain words are reserved.
\<close>

type_synonym Loc = "int \<times> int"

record Feature =
  loc :: Loc
  typ' :: string
  signature :: string
  value' :: int

record RouteEntry =
  rtyp :: string
  stage_id :: int
  switch_id :: int
  mux_id :: int
  sel_id :: int

record MultiLocCellMapping =
  mtyp :: string
  fromlocset :: "Loc set"
  toloc :: Loc
  pinnames :: "string set"

text \<open>
  \<open>SwitchboxPinLoc\<close> and the switchbox classes come from the module \<open>data_structs\<close>;
  their fields are the ones \<open>decode_switchbox\<close> reads. A switchbox holds a dictionary
  of stages, a stage a dictionary of switches, a switch a dictionary of multiplexers, and
  a multiplexer its input pins by index; an input pin has a name or \<open>None\<close>. The
  outputs are listed in the iteration order of \<open>switchbox.outputs.values()\<close>, the
  connections in the iteration order of the connection set.
\<close>

datatype PinDirection = INPUT | OUTPUT

record SwitchboxPinLoc =
  pl_stage_id :: int
  pl_switch_id :: int
  pl_mux_id :: int
  pl_pin_id :: int
  pl_pin_direction :: PinDirection

record SwitchPin =
  sp_name :: "string option"

record Mux =
  inputs :: "int \<rightharpoonup> SwitchPin"

record Switch =
  muxes :: "int \<rightharpoonup> Mux"

record Stage =
  switches :: "int \<rightharpoonup> Switch"

record SwitchboxPin =
  name :: string
  locs :: "SwitchboxPinLoc list"

record SwitchboxConnection =
  src :: SwitchboxPinLoc
  dst :: SwitchboxPinLoc

record Switchbox =
  stages :: "int \<rightharpoonup> Stage"
  outputs :: "SwitchboxPin list"
  connections :: "SwitchboxConnection list"

text \<open>
  Every exception the modelled code can raise is a value. \<open>LookupError\<close> stands for a
  failed subscript (Python's \<open>KeyError\<close> and \<open>IndexError\<close>, whose common base class
  it is). The two assertions of \<open>decode_switchbox\<close> carry the message the source
  gives them: the feature whose multiplexer is already set, and the input pin that no
  connection reaches. \<open>UnboundLocalError\<close> names the local variable read before any
  assignment. \<open>RecursionError\<close> is the interpreter's bound on nested calls.
\<close>

datatype error =
    Fasm2BelsException string
  | ValueError
  | UnboundLocalError string
  | LookupError
  | AssertionError_feature RouteEntry
  | AssertionError_inp_loc SwitchboxPinLoc
  | RecursionError

text \<open>
  The dictionaries the pipeline iterates over are association lists in insertion order.
  A \<open>defaultdict\<close> update \<open>d[k] = f(d[k])\<close> is \<^const>\<open>AList.update_with_aux\<close> with the
  default value; a plain store \<open>d[k] = v\<close> is \<^const>\<open>AList.update\<close>.
\<close>

type_synonym settings = "(Loc \<times> (string \<times> string list) list) list"
type_synonym routing = "(Loc \<times> RouteEntry list) list"
type_synonym 'src conns = "(Loc \<times> (string \<times> 'src) list) list"

section \<open>Strings and the regular expressions of the parsers\<close>

definition is_digit :: "char \<Rightarrow> bool" where
  "is_digit c = (c \<in> set ''0123456789'')"

text \<open>
  \<open>int(s)\<close> on a string of decimal digits. The value of a digit is its position in
  the row of the ten digits.
\<close>

definition digit_val :: "char \<Rightarrow> int" where
  "digit_val c = int (length (takeWhile (\<lambda>d. d \<noteq> c) ''0123456789''))"

definition int_of_digits :: "string \<Rightarrow> int" where
  "int_of_digits s = foldl (\<lambda>acc c. 10 * acc + digit_val c) 0 s"

text \<open>A literal piece of a pattern: the rest of the string when it starts with the piece.\<close>

fun strip_prefix :: "string \<Rightarrow> string \<Rightarrow> string option" where
  "strip_prefix [] s = Some s"
| "strip_prefix (p # ps) [] = None"
| "strip_prefix (p # ps) (c # cs) = (if p = c then strip_prefix ps cs else None)"

text \<open>
  \<open>$\<close> without the multi-line flag matches at the end of the string and just before a
  newline that ends the string.
\<close>

definition at_end :: "string \<Rightarrow> bool" where
  "at_end s = (s = [] \<or> s = [CHR 0x0A])"

text \<open>
  \<open>^I_highway\.IM(?P<switch_id>[0-9]+)\.I_pg(?P<sel_id>[0-9]+)$\<close>: the groups
  \<open>switch_id\<close> and \<open>sel_id\<close> of a match. A digit run is followed by a character that
  is no digit, so the greedy run is the only way to match.
\<close>

definition match_highway :: "string \<Rightarrow> (string \<times> string) option" where
  "match_highway s =
     (case strip_prefix ''I_highway.IM'' s of
        None \<Rightarrow> None
      | Some r1 \<Rightarrow>
          (if takeWhile is_digit r1 = [] then None
           else case strip_prefix ''.I_pg'' (dropWhile is_digit r1) of
                  None \<Rightarrow> None
                | Some r2 \<Rightarrow>
                    (if takeWhile is_digit r2 \<noteq> [] \<and> at_end (dropWhile is_digit r2)
                     then Some (takeWhile is_digit r1, takeWhile is_digit r2)
                     else None)))"

text \<open>
  \<open>^I_street\.Isb(?P<stage_id>[0-9])(?P<switch_id>[0-9])\.I_M(?P<mux_id>[0-9]+)\.I_pg(?P<sel_id>[0-9]+)$\<close>:
  the groups \<open>stage_id\<close>, \<open>switch_id\<close>, \<open>mux_id\<close> and \<open>sel_id\<close> of a match.
\<close>

definition match_street :: "string \<Rightarrow> (string \<times> string \<times> string \<times> string) option" where
  "match_street s =
     (case strip_prefix ''I_street.Isb'' s of
        Some (a # b # r1) \<Rightarrow>
          (if is_digit a \<and> is_digit b then
             (case strip_prefix ''.I_M'' r1 of
                None \<Rightarrow> None
              | Some r2 \<Rightarrow>
                  (if takeWhile is_digit r2 = [] then None
                   else case strip_prefix ''.I_pg'' (dropWhile is_digit r2) of
                          None \<Rightarrow> None
                        | Some r3 \<Rightarrow>
                            (if takeWhile is_digit r3 \<noteq> [] \<and> at_end (dropWhile is_digit r3)
                             then Some ([a], [b], takeWhile is_digit r2, takeWhile is_digit r3)
                             else None)))
           else None)
      | _ \<Rightarrow> None)"

text \<open>\<open>old in s\<close> for strings: \<open>old\<close> occurs in \<open>s\<close> as a contiguous piece.\<close>

fun contains :: "string \<Rightarrow> string \<Rightarrow> bool" where
  "contains old [] = (old = [])"
| "contains old (c # cs) = (strip_prefix old (c # cs) \<noteq> None \<or> contains old cs)"

text \<open>
  \<open>s.replace(old, '')\<close> for a non-empty \<open>old\<close>: the occurrences are found from left
  to right without overlap, and each is deleted.
\<close>

function replace_del :: "string \<Rightarrow> string \<Rightarrow> string" where
  "replace_del old [] = []"
| "replace_del old (c # cs) =
     (if old \<noteq> [] \<and> strip_prefix old (c # cs) \<noteq> None
      then replace_del old (drop (length old) (c # cs))
      else c # replace_del old cs)"
  by pat_completeness auto
termination
  by (relation "measure (\<lambda>(old, s). length s)") (auto simp: neq_Nil_conv)

text \<open>\<open>s.split('.', 1)\<close>: one piece without a dot, two pieces around the first dot.\<close>

definition split_dot1 :: "string \<Rightarrow> string list" where
  "split_dot1 s =
     (if CHR ''.'' \<in> set s
      then [takeWhile (\<lambda>c. c \<noteq> CHR ''.'') s, tl (dropWhile (\<lambda>c. c \<noteq> CHR ''.'') s)]
      else [s])"

section \<open>The feature parsers\<close>

text \<open>
  A parser mutates one dictionary of the object. Its result is the dictionary after the
  call, or the exception raised together with the dictionary as the call left it.

  \<open>parse_logic_line\<close>: the unpacking of the split raises \<open>ValueError\<close> unless the
  split gives two pieces; the setting is appended only when the value is 1.
  \<open>logic_setting\<close> is the \<open>if\<close>/\<open>elif\<close> that rewrites the setting.
\<close>

definition logic_setting :: "string \<Rightarrow> string" where
  "logic_setting setting =
     (if contains ''ZINV.'' setting then replace_del ''ZINV.'' setting
      else if contains ''INV.'' setting then replace_del ''INV.'' setting
      else setting)"

definition parse_logic_line :: "Feature \<Rightarrow> settings \<Rightarrow> (error \<times> settings) + settings" where
  "parse_logic_line feature belinv =
     (case split_dot1 (signature feature) of
        [belname, setting] \<Rightarrow>
          (if value' feature = 1 then
             Inr (AList.update_with_aux [] (loc feature)
                    (AList.update_with_aux [] belname (\<lambda>l. l @ [logic_setting setting]))
                    belinv)
           else Inr belinv)
      | _ \<Rightarrow> Inl (ValueError, belinv))"

definition parse_interface_line :: "Feature \<Rightarrow> settings \<Rightarrow> (error \<times> settings) + settings" where
  "parse_interface_line feature ifaces =
     (case split_dot1 (signature feature) of
        [belname, setting] \<Rightarrow>
          (if value' feature = 1 then
             Inr (AList.update_with_aux [] (loc feature)
                    (AList.update_with_aux [] belname
                       (\<lambda>l. l @ [replace_del ''INV.'' (replace_del ''ZINV.'' setting)]))
                    ifaces)
           else Inr ifaces)
      | _ \<Rightarrow> Inl (ValueError, ifaces))"

text \<open>
  \<open>settings_at\<close> reads the list \<open>d[l][belname]\<close> of such a dictionary of default
  dictionaries: the empty list where nothing was appended.
\<close>

definition settings_at :: "settings \<Rightarrow> Loc \<Rightarrow> string \<Rightarrow> string list" where
  "settings_at d l belname =
     (case map_of d l of
        None \<Rightarrow> []
      | Some by_name \<Rightarrow> (case map_of by_name belname of None \<Rightarrow> [] | Some xs \<Rightarrow> xs))"

text \<open>
  \<open>parse_routing_line\<close>: the local variables \<open>typ\<close>, \<open>stage_id\<close>, \<open>switch_id\<close>,
  \<open>mux_id\<close> and \<open>sel_id\<close> are bound by the first match, bound again by the second,
  and read by the final statement. That statement first evaluates
  \<open>self.routingdata[feature.loc]\<close>, which enters an empty list for a new location, and
  then the arguments of \<open>RouteEntry\<close>, where an unbound \<open>typ\<close> raises.
\<close>

definition route_vars :: "string \<Rightarrow> RouteEntry option" where
  "route_vars sig =
     (let after_highway =
        (case match_highway sig of
           Some (sw, sel) \<Rightarrow>
             Some \<lparr>rtyp = ''HIGHWAY'', stage_id = 3, switch_id = int_of_digits sw,
                   mux_id = 0, sel_id = int_of_digits sel\<rparr>
         | None \<Rightarrow> None)
      in case match_street sig of
           Some (st, sw, mx, sel) \<Rightarrow>
             Some \<lparr>rtyp = ''STREET'', stage_id = int_of_digits st - 1,
                   switch_id = int_of_digits sw - 1, mux_id = int_of_digits mx,
                   sel_id = int_of_digits sel\<rparr>
         | None \<Rightarrow> after_highway)"

definition parse_routing_line :: "Feature \<Rightarrow> routing \<Rightarrow> (error \<times> routing) + routing" where
  "parse_routing_line feature routingdata =
     (case route_vars (signature feature) of
        None \<Rightarrow>
          Inl (UnboundLocalError ''typ'',
               AList.update_with_aux [] (loc feature) (\<lambda>l. l) routingdata)
      | Some entry \<Rightarrow>
          Inr (AList.update_with_aux [] (loc feature) (\<lambda>l. l @ [entry]) routingdata))"

section \<open>Decoding a switchbox\<close>

text \<open>
  \<open>conn_by_dst\<close> groups the connections of the switchbox by destination; a
  destination that no connection has is not a key. The value of a key is a Python set,
  and the source fixes no order in which \<open>expand_mux\<close> iterates it: the order depends
  on the hashes of the connections. \<open>set_order\<close> stands for it, a parameter of the
  decoding: applied to the connections added to a set, in the order of
  \<open>switchbox.connections\<close> and each of them once, it gives them in the order of the
  iteration. The selection table \<open>mux_sel\<close> has one entry, \<open>None\<close>, for every
  multiplexer of every switch of every stage.
\<close>

type_synonym mux_sel = "int \<rightharpoonup> (int \<rightharpoonup> (int \<rightharpoonup> int option))"

definition conn_by_dst ::
  "(SwitchboxConnection list \<Rightarrow> SwitchboxConnection list) \<Rightarrow> Switchbox
   \<Rightarrow> SwitchboxPinLoc \<rightharpoonup> SwitchboxConnection list" where
  "conn_by_dst set_order switchbox d =
     (case remdups (filter (\<lambda>c. dst c = d) (connections switchbox)) of
        [] \<Rightarrow> None
      | cs \<Rightarrow> Some (set_order cs))"

definition init_mux_sel :: "Switchbox \<Rightarrow> mux_sel" where
  "init_mux_sel switchbox =
     (\<lambda>st. map_option
        (\<lambda>stage sw. map_option
           (\<lambda>switch mx. map_option (\<lambda>mux. None) (muxes switch mx))
           (switches stage sw))
        (stages switchbox st))"

text \<open>
  The loop over the features: the assertion reads
  \<open>mux_sel[stage_id][switch_id][mux_id]\<close>, which raises a lookup error for an address
  outside the table, and fails when the entry is already set; then the selector is stored.
\<close>

fun set_mux_sel :: "RouteEntry list \<Rightarrow> mux_sel \<Rightarrow> error + mux_sel" where
  "set_mux_sel [] ms = Inr ms"
| "set_mux_sel (feature # features) ms =
     (case ms (stage_id feature) of
        None \<Rightarrow> Inl LookupError
      | Some by_switch \<Rightarrow>
          (case by_switch (switch_id feature) of
             None \<Rightarrow> Inl LookupError
           | Some by_mux \<Rightarrow>
               (case by_mux (mux_id feature) of
                  None \<Rightarrow> Inl LookupError
                | Some (Some sel) \<Rightarrow> Inl (AssertionError_feature feature)
                | Some None \<Rightarrow>
                    set_mux_sel features
                      (ms(stage_id feature \<mapsto>
                         by_switch(switch_id feature \<mapsto>
                           by_mux(mux_id feature \<mapsto> Some (sel_id feature))))))))"

text \<open>
  \<open>expand_mux\<close> calls itself for every connection that ends at the selected input
  pin. The first argument bounds the depth of these nested calls, as the interpreter's
  recursion limit does; \<open>expand_conns\<close> is the loop over the connections.
\<close>

fun expand_mux ::
    "(SwitchboxConnection list \<Rightarrow> SwitchboxConnection list) \<Rightarrow> nat \<Rightarrow> Switchbox \<Rightarrow> mux_sel
     \<Rightarrow> SwitchboxPinLoc \<Rightarrow> error + string option"
  and expand_conns ::
    "(SwitchboxConnection list \<Rightarrow> SwitchboxConnection list) \<Rightarrow> nat \<Rightarrow> Switchbox \<Rightarrow> mux_sel
     \<Rightarrow> SwitchboxConnection list \<Rightarrow> error + string option"
where
  "expand_mux set_order depth switchbox ms out_loc =
     (case ms (pl_stage_id out_loc) of
        None \<Rightarrow> Inl LookupError
      | Some by_switch \<Rightarrow>
     (case by_switch (pl_switch_id out_loc) of
        None \<Rightarrow> Inl LookupError
      | Some by_mux \<Rightarrow>
     (case by_mux (pl_mux_id out_loc) of
        None \<Rightarrow> Inl LookupError
      | Some None \<Rightarrow> Inr None
      | Some (Some sel) \<Rightarrow>
     (case stages switchbox (pl_stage_id out_loc) of
        None \<Rightarrow> Inl LookupError
      | Some stage \<Rightarrow>
     (case switches stage (pl_switch_id out_loc) of
        None \<Rightarrow> Inl LookupError
      | Some switch \<Rightarrow>
     (case muxes switch (pl_mux_id out_loc) of
        None \<Rightarrow> Inl LookupError
      | Some mux \<Rightarrow>
     (case inputs mux sel of
        None \<Rightarrow> Inl LookupError
      | Some pin \<Rightarrow>
     (case sp_name pin of
        Some n \<Rightarrow> Inr (Some n)
      | None \<Rightarrow>
          (let inp_loc = \<lparr>pl_stage_id = pl_stage_id out_loc,
                           pl_switch_id = pl_switch_id out_loc,
                           pl_mux_id = pl_mux_id out_loc,
                           pl_pin_id = sel,
                           pl_pin_direction = INPUT\<rparr>
           in case conn_by_dst set_order switchbox inp_loc of
                None \<Rightarrow> Inl (AssertionError_inp_loc inp_loc)
              | Some cs \<Rightarrow> expand_conns set_order depth switchbox ms cs)))))))))"
| "expand_conns set_order depth switchbox ms [] = Inr None"
| "expand_conns set_order 0 switchbox ms (c # cs) = Inl RecursionError"
| "expand_conns set_order (Suc depth) switchbox ms (c # cs) =
     (case expand_mux set_order depth switchbox ms (src c) of
        Inl e \<Rightarrow> Inl e
      | Inr (Some inp) \<Rightarrow> Inr (Some inp)
      | Inr None \<Rightarrow> expand_conns set_order (Suc depth) switchbox ms cs)"

text \<open>The loop over the output pins: \<open>routes[out_pin.name] = expand_mux(out_pin.locs[0])\<close>.\<close>

fun route_outputs ::
  "(SwitchboxConnection list \<Rightarrow> SwitchboxConnection list) \<Rightarrow> nat \<Rightarrow> Switchbox \<Rightarrow> mux_sel \<Rightarrow> SwitchboxPin list \<Rightarrow> (string \<times> string option) list
   \<Rightarrow> error + (string \<times> string option) list" where
  "route_outputs set_order depth switchbox ms [] routes = Inr routes"
| "route_outputs set_order depth switchbox ms (out_pin # pins) routes =
     (case locs out_pin of
        [] \<Rightarrow> Inl LookupError
      | out_loc # _ \<Rightarrow>
          (case expand_mux set_order depth switchbox ms out_loc of
             Inl e \<Rightarrow> Inl e
           | Inr v \<Rightarrow>
               route_outputs set_order depth switchbox ms pins (AList.update (name out_pin) v routes)))"

definition decode_switchbox ::
  "(SwitchboxConnection list \<Rightarrow> SwitchboxConnection list) \<Rightarrow> nat \<Rightarrow> Switchbox
   \<Rightarrow> RouteEntry list \<Rightarrow> error + (string \<times> string option) list" where
  "decode_switchbox set_order depth switchbox features =
     (case set_mux_sel features (init_mux_sel switchbox) of
        Inl e \<Rightarrow> Inl e
      | Inr ms \<Rightarrow> route_outputs set_order depth switchbox ms (outputs switchbox) [])"

text \<open>
  \<open>re.match('[VH][0-9][LRBT][0-9]', k)\<close>: the pattern is matched at the start of the
  name and need not reach its end.
\<close>

fun is_hop_wire :: "string \<Rightarrow> bool" where
  "is_hop_wire (a # b # c # d # _) =
     (a \<in> set ''VH'' \<and> is_digit b \<and> c \<in> set ''LRBT'' \<and> is_digit d)"
| "is_hop_wire _ = False"

text \<open>
  \<open>process_switchbox\<close> stores each driven output of the switchbox at \<open>l\<close> either
  in \<open>designhops\<close> or in \<open>designconnections\<close>; the state is the pair of the two
  dictionaries.
\<close>

definition store_route ::
  "Loc \<Rightarrow> string \<times> string option \<Rightarrow> string conns \<times> string conns
   \<Rightarrow> string conns \<times> string conns" where
  "store_route l kv st =
     (case snd kv of
        None \<Rightarrow> st
      | Some v \<Rightarrow>
          (if is_hop_wire (fst kv)
           then (fst st, AList.update_with_aux [] l (AList.update (fst kv) v) (snd st))
           else (AList.update_with_aux [] l (AList.update (fst kv) v) (fst st), snd st)))"

definition process_switchbox ::
  "(SwitchboxConnection list \<Rightarrow> SwitchboxConnection list) \<Rightarrow> nat \<Rightarrow> Loc \<Rightarrow> Switchbox
   \<Rightarrow> RouteEntry list \<Rightarrow> string conns \<times> string conns
   \<Rightarrow> error + string conns \<times> string conns" where
  "process_switchbox set_order depth l switchbox features st =
     (case decode_switchbox set_order depth switchbox features of
        Inl e \<Rightarrow> Inl e
      | Inr routes \<Rightarrow> Inr (fold (store_route l) routes st))"

section \<open>Resolving hops and connections\<close>

text \<open>
  \<open>get_name_and_hop\<close> is imported from the module \<open>connections\<close> and is a parameter
  here: it decodes a source name into a base name and an offset, or the name and
  \<open>None\<close>. \<open>self.designhops\<close> is a default dictionary of dictionaries: the read
  \<open>self.designhops[tloc]\<close> gives the dictionary of the location, the empty one for a
  new location (\<open>hops_at\<close>), and enters that empty dictionary for a new location
  (\<open>touch_hops\<close>).

  \<open>follow_hops\<close> is the \<open>while hop[1] is not None\<close> loop of \<open>resolve_hops\<close>
  with the loop variables \<open>tloc\<close> and \<open>hop\<close>. Its result is the pair the loop ends
  with and \<open>self.designhops\<close> as the reads of the loop leave it; a loop that does not
  end has no result.
\<close>

definition hops_at :: "string conns \<Rightarrow> Loc \<Rightarrow> (string \<times> string) list" where
  "hops_at designhops tloc = (case map_of designhops tloc of None \<Rightarrow> [] | Some d \<Rightarrow> d)"

definition touch_hops :: "Loc \<Rightarrow> string conns \<Rightarrow> string conns" where
  "touch_hops tloc designhops = AList.update_with_aux [] tloc (\<lambda>d. d) designhops"

partial_function (option) follow_hops ::
  "(string \<Rightarrow> string \<times> (int \<times> int) option) \<Rightarrow> string conns \<Rightarrow> Loc
   \<Rightarrow> string \<times> (int \<times> int) option \<Rightarrow> ((Loc \<times> string) \<times> string conns) option" where
  "follow_hops get_name_and_hop designhops tloc hop =
     (case snd hop of
        None \<Rightarrow> Some ((tloc, fst hop), designhops)
      | Some off \<Rightarrow>
          (case map_of (hops_at designhops (fst tloc + fst off, snd tloc + snd off)) (fst hop) of
             Some v \<Rightarrow>
               follow_hops get_name_and_hop
                 (touch_hops (fst tloc + fst off, snd tloc + snd off) designhops)
                 (fst tloc + fst off, snd tloc + snd off) (get_name_and_hop v)
           | None \<Rightarrow>
               follow_hops get_name_and_hop
                 (touch_hops (fst tloc + fst off, snd tloc + snd off) designhops)
                 (fst tloc + fst off, snd tloc + snd off) (fst hop, None)))"

text \<open>
  \<open>resolve_hops\<close>: every entry \<open>pin: source\<close> of every location is replaced, in
  place, by the pair the loop ends with. The result is the resolved connections and
  \<open>self.designhops\<close> after all the loops.
\<close>

fun resolve_pins ::
  "(string \<Rightarrow> string \<times> (int \<times> int) option) \<Rightarrow> string conns \<Rightarrow> Loc
   \<Rightarrow> (string \<times> string) list \<Rightarrow> ((string \<times> Loc \<times> string) list \<times> string conns) option" where
  "resolve_pins get_name_and_hop designhops l [] = Some ([], designhops)"
| "resolve_pins get_name_and_hop designhops l ((pin, source) # ps) =
     (case follow_hops get_name_and_hop designhops l (get_name_and_hop source) of
        None \<Rightarrow> None
      | Some (a, designhops') \<Rightarrow>
          (case resolve_pins get_name_and_hop designhops' l ps of
             None \<Rightarrow> None
           | Some (r, designhops'') \<Rightarrow> Some ((pin, a) # r, designhops'')))"

fun resolve_hops ::
  "(string \<Rightarrow> string \<times> (int \<times> int) option) \<Rightarrow> string conns \<Rightarrow> string conns
   \<Rightarrow> ((Loc \<times> string) conns \<times> string conns) option" where
  "resolve_hops get_name_and_hop designhops [] = Some ([], designhops)"
| "resolve_hops get_name_and_hop designhops ((l, cs) # rest) =
     (case resolve_pins get_name_and_hop designhops l cs of
        None \<Rightarrow> None
      | Some (cs', designhops') \<Rightarrow>
          (case resolve_hops get_name_and_hop designhops' rest of
             None \<Rightarrow> None
           | Some (rest', designhops'') \<Rightarrow> Some ((l, cs') # rest', designhops'')))"

text \<open>
  \<open>resolve_connections\<close>: the loop over the locations of \<open>routingdata\<close> in ascending
  order of \<open>(x, y)\<close>, which skips a location that is no key of the switchbox grid, and
  then the call of \<open>resolve_hops\<close>. \<open>features_at\<close> is the read
  \<open>self.routingdata[loc]\<close> of the default dictionary. \<open>process_locations\<close> is the
  loop; its state is the pair of \<open>designconnections\<close> and \<open>designhops\<close>.
\<close>

definition features_at :: "routing \<Rightarrow> Loc \<Rightarrow> RouteEntry list" where
  "features_at routingdata l = (case map_of routingdata l of None \<Rightarrow> [] | Some fs \<Rightarrow> fs)"

fun process_locations ::
  "(SwitchboxConnection list \<Rightarrow> SwitchboxConnection list) \<Rightarrow> nat \<Rightarrow> (Loc \<rightharpoonup> string)
   \<Rightarrow> (string \<rightharpoonup> Switchbox) \<Rightarrow> routing \<Rightarrow> Loc list
   \<Rightarrow> string conns \<times> string conns \<Rightarrow> error + string conns \<times> string conns" where
  "process_locations set_order depth grid types routingdata [] st = Inr st"
| "process_locations set_order depth grid types routingdata (l # ks) st =
     (case grid l of
        None \<Rightarrow> process_locations set_order depth grid types routingdata ks st
      | Some t \<Rightarrow>
          (case types t of
             None \<Rightarrow> Inl LookupError
           | Some switchbox \<Rightarrow>
               (case process_switchbox set_order depth l switchbox (features_at routingdata l) st of
                  Inl e \<Rightarrow> Inl e
                | Inr st' \<Rightarrow> process_locations set_order depth grid types routingdata ks st')))"

text \<open>
  The result of \<open>resolve_connections\<close> is \<open>None\<close> when the hop loop does not end,
  the exception when one is raised, and otherwise the two dictionaries as
  \<open>resolve_hops\<close> leaves them.
\<close>

definition resolve_connections ::
  "(SwitchboxConnection list \<Rightarrow> SwitchboxConnection list) \<Rightarrow> nat
   \<Rightarrow> (string \<Rightarrow> string \<times> (int \<times> int) option) \<Rightarrow> (Loc \<rightharpoonup> string)
   \<Rightarrow> (string \<rightharpoonup> Switchbox) \<Rightarrow> routing \<Rightarrow> string conns \<times> string conns
   \<Rightarrow> (error + (Loc \<times> string) conns \<times> string conns) option" where
  "resolve_connections set_order depth get_name_and_hop grid types routingdata st =
     (case process_locations set_order depth grid types routingdata (sort (map fst routingdata)) st of
        Inl e \<Rightarrow> Some (Inl e)
      | Inr (designconnections, designhops) \<Rightarrow>
          (case resolve_hops get_name_and_hop designhops designconnections of
             None \<Rightarrow> None
           | Some (resolved, designhops') \<Rightarrow> Some (Inr (resolved, designhops'))))"

section \<open>Cells that occupy several locations\<close>

text \<open>
  \<open>self.multiloccells\<close> is a dictionary from a cell name to its mapping, in insertion
  order. \<open>remap_multiloc_loc\<close> walks its values and stops at the first mapping whose
  guard holds and whose \<open>fromlocset\<close> has the location.
\<close>

type_synonym multiloccells = "(string \<times> MultiLocCellMapping) list"

fun remap_multiloc_loc ::
  "multiloccells \<Rightarrow> Loc \<Rightarrow> string option \<Rightarrow> string option \<Rightarrow> Loc" where
  "remap_multiloc_loc [] l pinname celltype = l"
| "remap_multiloc_loc ((k, multiloc) # rest) l pinname celltype =
     (if ((case pinname of None \<Rightarrow> True | Some p \<Rightarrow> p \<in> pinnames multiloc)
          \<or> celltype = Some (mtyp multiloc))
         \<and> l \<in> fromlocset multiloc
      then toloc multiloc
      else remap_multiloc_loc rest l pinname celltype)"

text \<open>The two loops of \<open>resolve_multiloc_cells\<close>, each over a dictionary of dictionaries.\<close>

definition unify_bel ::
  "multiloccells \<Rightarrow> Loc \<Rightarrow> string \<times> string list \<Rightarrow> settings \<Rightarrow> settings" where
  "unify_bel cells bellockey kv newbelinversions =
     (if fst kv \<in> fst ` set cells
      then AList.update_with_aux []
             (remap_multiloc_loc cells bellockey None (Some (fst kv)))
             (AList.update_with_aux [] (fst kv) (\<lambda>l. l @ snd kv))
             newbelinversions
      else newbelinversions)"

definition unify_belinversions :: "multiloccells \<Rightarrow> settings \<Rightarrow> settings" where
  "unify_belinversions cells belinv =
     fold (\<lambda>(bellockey, bellocpair). fold (unify_bel cells bellockey) bellocpair) belinv []"

definition unify_conn ::
  "multiloccells \<Rightarrow> Loc \<Rightarrow> string \<times> Loc \<times> string \<Rightarrow> (Loc \<times> string) conns
   \<Rightarrow> (Loc \<times> string) conns" where
  "unify_conn cells l kv newdesignconnections =
     AList.update_with_aux []
       (remap_multiloc_loc cells l (Some (fst kv)) None)
       (AList.update (fst kv)
          (remap_multiloc_loc cells (fst (snd kv)) (Some (snd (snd kv))) None, snd (snd kv)))
       newdesignconnections"

definition unify_connections :: "multiloccells \<Rightarrow> (Loc \<times> string) conns \<Rightarrow> (Loc \<times> string) conns" where
  "unify_connections cells conns =
     fold (\<lambda>(l, cs). fold (unify_conn cells l) cs) conns []"

text \<open>
  The attributes of the object that \<open>resolve_multiloc_cells\<close> and \<open>produce_verilog\<close>
  touch. \<open>belinversion\<close> is an attribute that exists only once it is assigned.
\<close>

record fasm2bels =
  belinversions :: settings
  interfaces :: settings
  designconnections :: "(Loc \<times> string) conns"
  belinversion :: "settings option"

definition resolve_multiloc_cells :: "multiloccells \<Rightarrow> fasm2bels \<Rightarrow> fasm2bels" where
  "resolve_multiloc_cells cells self =
     self\<lparr>belinversion := Some (unify_belinversions cells (belinversions self)),
          designconnections := unify_connections cells (designconnections self)\<rparr>"

text \<open>
  \<open>produce_verilog\<close> hands \<open>self.belinversions\<close>, \<open>self.interfaces\<close> and
  \<open>self.designconnections\<close> to \<open>VModule\<close>; the other arguments are tables of the
  device.
\<close>

definition produce_verilog_args ::
  "fasm2bels \<Rightarrow> settings \<times> settings \<times> (Loc \<times> string) conns" where
  "produce_verilog_args self = (belinversions self, interfaces self, designconnections self)"

section \<open>Notions used by the properties\<close>

text \<open>
  The keys of \<open>designhops\<close> are the pairs of a location and a wire name that have a hop
  entry. From the key \<open>(l, n)\<close> the loop goes on to the key \<open>(l', n')\<close> when the entry
  of \<open>(l, n)\<close> decodes to the name \<open>n'\<close> and an offset that leads from \<open>l\<close> to
  \<open>l'\<close>, and \<open>(l', n')\<close> has an entry itself. \<open>hop_edges\<close> is this relation of
  iterated hop lookup.
\<close>

definition hop_entry :: "string conns \<Rightarrow> Loc \<times> string \<Rightarrow> string option" where
  "hop_entry designhops k = map_of (hops_at designhops (fst k)) (snd k)"

definition hop_edges ::
  "(string \<Rightarrow> string \<times> (int \<times> int) option) \<Rightarrow> string conns
   \<Rightarrow> ((Loc \<times> string) \<times> (Loc \<times> string)) set" where
  "hop_edges get_name_and_hop designhops =
     {(k, k'). \<exists>v off. hop_entry designhops k = Some v
                 \<and> get_name_and_hop v = (snd k', Some off)
                 \<and> fst k' = (fst (fst k) + fst off, snd (fst k) + snd off)
                 \<and> hop_entry designhops k' \<noteq> None}"

text \<open>The read \<open>d[l][pin]\<close> of a dictionary of connections.\<close>

definition conn_at :: "'src conns \<Rightarrow> Loc \<Rightarrow> string \<Rightarrow> 'src option" where
  "conn_at d l pin = (case map_of d l of None \<Rightarrow> None | Some cs \<Rightarrow> map_of cs pin)"

text \<open>
  A decoder and hop tables for examples. The decoder reads \<open>H1L0_R1\<close> as the wire
  \<open>H1L0\<close> one column to the right and \<open>H1L0_L1\<close> as the same wire one column to the
  left; every other name is no hop. In \<open>cyclic_hops\<close> the wire \<open>H1L0\<close> at \<open>(0, 0)\<close>
  is driven from the right and the wire \<open>H1L0\<close> at \<open>(1, 0)\<close> from the left.
\<close>

definition example_decoder :: "string \<Rightarrow> string \<times> (int \<times> int) option" where
  "example_decoder s =
     (if s = ''H1L0_R1'' then (''H1L0'', Some (1, 0))
      else if s = ''H1L0_L1'' then (''H1L0'', Some (- 1, 0))
      else (s, None))"

definition cyclic_hops :: "string conns" where
  "cyclic_hops = [((0, 0), [(''H1L0'', ''H1L0_R1'')]), ((1, 0), [(''H1L0'', ''H1L0_L1'')])]"

definition straight_hops :: "string conns" where
  "straight_hops = [((1, 0), [(''H1L0'', ''QZ'')])]"

text \<open>
  \<open>mux_addr\<close> is the triple a routing feature addresses, and \<open>sel_entry\<close> the read
  \<open>mux_sel[stage][switch][mux]\<close>: \<open>None\<close> where a subscript fails. A multiplexer is
  declared when the stages of the switchbox hold it. \<open>outputs_wf\<close> says that every output
  pin has a first location and that this location is a declared multiplexer.
\<close>

definition mux_addr :: "RouteEntry \<Rightarrow> int \<times> int \<times> int" where
  "mux_addr feature = (stage_id feature, switch_id feature, mux_id feature)"

definition sel_entry :: "mux_sel \<Rightarrow> int \<times> int \<times> int \<Rightarrow> int option option" where
  "sel_entry ms a =
     (case ms (fst a) of
        None \<Rightarrow> None
      | Some by_switch \<Rightarrow>
          (case by_switch (fst (snd a)) of
             None \<Rightarrow> None
           | Some by_mux \<Rightarrow> by_mux (snd (snd a))))"

definition mux_declared :: "Switchbox \<Rightarrow> int \<times> int \<times> int \<Rightarrow> bool" where
  "mux_declared switchbox a =
     (case stages switchbox (fst a) of
        None \<Rightarrow> False
      | Some stage \<Rightarrow>
          (case switches stage (fst (snd a)) of
             None \<Rightarrow> False
           | Some switch \<Rightarrow> muxes switch (snd (snd a)) \<noteq> None))"

definition outputs_wf :: "Switchbox \<Rightarrow> bool" where
  "outputs_wf switchbox =
     list_all
       (\<lambda>out_pin. case locs out_pin of
                     [] \<Rightarrow> False
                   | out_loc # _ \<Rightarrow>
                       mux_declared switchbox
                         (pl_stage_id out_loc, pl_switch_id out_loc, pl_mux_id out_loc))
       (outputs switchbox)"

text \<open>
  A switchbox for examples: one stage with one switch with one multiplexer, whose inputs
  0 and 1 are the pins \<open>IN0\<close> and \<open>IN1\<close>, and the output \<open>OUT\<close> of that multiplexer.
  \<open>dangling_switchbox\<close> has the same stages and an output whose location is in no stage.
\<close>

definition example_switchbox :: Switchbox where
  "example_switchbox =
     \<lparr>stages = [0 \<mapsto> \<lparr>switches = [0 \<mapsto> \<lparr>muxes = [0 \<mapsto>
          \<lparr>inputs = [0 \<mapsto> \<lparr>sp_name = Some ''IN0''\<rparr>, 1 \<mapsto> \<lparr>sp_name = Some ''IN1''\<rparr>]\<rparr>]\<rparr>]\<rparr>],
      outputs = [\<lparr>name = ''OUT'',
                  locs = [\<lparr>pl_stage_id = 0, pl_switch_id = 0, pl_mux_id = 0, pl_pin_id = 0,
                           pl_pin_direction = OUTPUT\<rparr>]\<rparr>],
      connections = []\<rparr>"

definition dangling_switchbox :: Switchbox where
  "dangling_switchbox =
     example_switchbox
       \<lparr>outputs := [\<lparr>name = ''OUT'',
                     locs = [\<lparr>pl_stage_id = 7, pl_switch_id = 0, pl_mux_id = 0, pl_pin_id = 0,
                              pl_pin_direction = OUTPUT\<rparr>]\<rparr>]\<rparr>"

text \<open>
  \<open>hop_switchbox\<close> is the example switchbox with the hop wire \<open>H1L0_R1\<close> as input 1
  of its multiplexer.
\<close>

definition hop_switchbox :: Switchbox where
  "hop_switchbox =
     example_switchbox
       \<lparr>stages := [0 \<mapsto> \<lparr>switches = [0 \<mapsto> \<lparr>muxes = [0 \<mapsto>
          \<lparr>inputs = [0 \<mapsto> \<lparr>sp_name = Some ''IN0''\<rparr>,
                     1 \<mapsto> \<lparr>sp_name = Some ''H1L0_R1''\<rparr>]\<rparr>]\<rparr>]\<rparr>]\<rparr>"

definition street :: "int \<Rightarrow> int \<Rightarrow> int \<Rightarrow> int \<Rightarrow> RouteEntry" where
  "street st sw mx sel =
     \<lparr>rtyp = ''STREET'', stage_id = st, switch_id = sw, mux_id = mx, sel_id = sel\<rparr>"

text \<open>
  \<open>canonical_fixed\<close>: a canonical location that lies in the footprint of a mapping of
  the table is the canonical location of that mapping. \<open>overlapping_cells\<close> is a table
  without this property: the canonical location \<open>(2, 1)\<close> of the cell \<open>RAM1\<close> lies in
  the footprint of ASSP, which comes first, and both cell types have a pin \<open>A\<close>.
\<close>

definition canonical_fixed :: "multiloccells \<Rightarrow> bool" where
  "canonical_fixed cells =
     (\<forall>m \<in> snd ` set cells. \<forall>m' \<in> snd ` set cells.
        toloc m \<in> fromlocset m' \<longrightarrow> toloc m' = toloc m)"

definition overlapping_cells :: multiloccells where
  "overlapping_cells =
     [(''ASSP'', \<lparr>mtyp = ''ASSP'', fromlocset = {(1, 1), (2, 1)}, toloc = (1, 1),
                  pinnames = {''A''}\<rparr>),
      (''RAM1'', \<lparr>mtyp = ''RAM1'', fromlocset = {(2, 1), (2, 2)}, toloc = (2, 1),
                  pinnames = {''A''}\<rparr>)]"

definition disjoint_cells :: multiloccells where
  "disjoint_cells =
     [(''ASSP'', \<lparr>mtyp = ''ASSP'', fromlocset = {(1, 1), (1, 2)}, toloc = (1, 1),
                  pinnames = {''A''}\<rparr>),
      (''RAM1'', \<lparr>mtyp = ''RAM1'', fromlocset = {(2, 1), (2, 2)}, toloc = (2, 1),
                  pinnames = {''A'', ''WD''}\<rparr>)]"

text \<open>
  A dictionary of connections as the unification builds it: the keys of the outer and of
  every inner dictionary are distinct and no inner dictionary is empty. In a map that is
  \<open>conns_fixed\<close>, the remapping changes neither end of any connection.
\<close>

definition conns_wf :: "'src conns \<Rightarrow> bool" where
  "conns_wf d =
     (distinct (map fst d) \<and> (\<forall>lc \<in> set d. snd lc \<noteq> [] \<and> distinct (map fst (snd lc))))"

definition conns_fixed :: "multiloccells \<Rightarrow> (Loc \<times> string) conns \<Rightarrow> bool" where
  "conns_fixed cells d =
     (\<forall>lc \<in> set d. \<forall>kv \<in> set (snd lc).
        remap_multiloc_loc cells (fst lc) (Some (fst kv)) None = fst lc
        \<and> remap_multiloc_loc cells (fst (snd kv)) (Some (snd (snd kv))) None = fst (snd kv))"

section \<open>Properties of the parsers\<close>

lemma strip_prefix_append: "strip_prefix p (p @ s) = Some s"
  by (induction p) auto

lemma int_of_digits_nonneg_aux: "0 \<le> acc \<Longrightarrow> 0 \<le> foldl (\<lambda>acc c. 10 * acc + digit_val c) acc s"
  by (induction s arbitrary: acc) (auto simp: digit_val_def)

lemma int_of_digits_nonneg: "0 \<le> int_of_digits s"
  by (simp add: int_of_digits_def int_of_digits_nonneg_aux)

lemma takeWhile_digits_dot: "list_all is_digit m \<Longrightarrow> takeWhile is_digit (m @ CHR ''.'' # r) = m"
  by (induction m) (auto simp: is_digit_def)

lemma dropWhile_digits_dot: "list_all is_digit m \<Longrightarrow> dropWhile is_digit (m @ CHR ''.'' # r) = CHR ''.'' # r"
  by (induction m) (auto simp: is_digit_def)

lemma takeWhile_digits_all: "list_all is_digit m \<Longrightarrow> takeWhile is_digit m = m"
  by (induction m) auto

lemma dropWhile_digits_all: "list_all is_digit m \<Longrightarrow> dropWhile is_digit m = []"
  by (induction m) auto

lemma match_street_form:
  assumes "is_digit a" "is_digit b" "m \<noteq> []" "list_all is_digit m" "s \<noteq> []" "list_all is_digit s"
  shows "match_street (''I_street.Isb'' @ [a, b] @ ''.I_M'' @ m @ ''.I_pg'' @ s) = Some ([a], [b], m, s)"
  using assms
  by (simp add: match_street_def takeWhile_digits_dot dropWhile_digits_dot
      takeWhile_digits_all dropWhile_digits_all at_end_def)

lemma match_street_Some:
  assumes "match_street sig = Some (st, sw, mx, sel)"
  shows "\<exists>a b. st = [a] \<and> sw = [b] \<and> is_digit a \<and> is_digit b"
  using assms by (auto simp: match_street_def split: option.splits list.splits if_splits)


text \<open>
  Claim C5. Parsing the STREET signature \<open>I_street.Isb12.I_M0.I_pg3\<close> records a STREET
  route entry with stage 0, switch 1, mux 0 and selector 3. In general, whenever the STREET
  pattern matches a signature, its stage and switch groups are single digits, the entry
  recorded at the feature's location has the digit minus one as stage and as switch, and
  the mux and selector groups read as decimal numbers, which are not negative. Every text
  of the form \<open>I_street.Isb<d><d>.I_M<digits>.I_pg<digits>\<close> matches the pattern with
  these groups.
\<close>

theorem street_signature_decoding:
  "parse_routing_line
     \<lparr>loc = l, typ' = ''ROUTING'', signature = ''I_street.Isb12.I_M0.I_pg3'', value' = v\<rparr> rd
   = Inr (AList.update_with_aux [] l
            (\<lambda>es. es @ [\<lparr>rtyp = ''STREET'', stage_id = 0, switch_id = 1, mux_id = 0, sel_id = 3\<rparr>])
            rd)
   \<and> (match_street sig = Some (st, sw, mx, sel) \<longrightarrow>
        (\<exists>a b. st = [a] \<and> sw = [b] \<and> is_digit a \<and> is_digit b
           \<and> parse_routing_line \<lparr>loc = l, typ' = t, signature = sig, value' = v\<rparr> rd
               = Inr (AList.update_with_aux [] l
                        (\<lambda>es. es @ [\<lparr>rtyp = ''STREET'', stage_id = digit_val a - 1,
                                       switch_id = digit_val b - 1, mux_id = int_of_digits mx,
                                       sel_id = int_of_digits sel\<rparr>])
                        rd)
           \<and> 0 \<le> int_of_digits mx \<and> 0 \<le> int_of_digits sel))
   \<and> (is_digit a \<and> is_digit b \<and> m \<noteq> [] \<and> list_all is_digit m \<and> s \<noteq> [] \<and> list_all is_digit s \<longrightarrow>
        match_street (''I_street.Isb'' @ [a, b] @ ''.I_M'' @ m @ ''.I_pg'' @ s)
          = Some ([a], [b], m, s))"
proof (intro conjI impI)
  show "parse_routing_line
     \<lparr>loc = l, typ' = ''ROUTING'', signature = ''I_street.Isb12.I_M0.I_pg3'', value' = v\<rparr> rd
   = Inr (AList.update_with_aux [] l
            (\<lambda>es. es @ [\<lparr>rtyp = ''STREET'', stage_id = 0, switch_id = 1, mux_id = 0, sel_id = 3\<rparr>])
            rd)"
    by (simp add: parse_routing_line_def route_vars_def match_street_def match_highway_def
        is_digit_def at_end_def int_of_digits_def digit_val_def)
next
  assume m: "match_street sig = Some (st, sw, mx, sel)"
  then obtain a b where ab: "st = [a]" "sw = [b]" "is_digit a" "is_digit b"
    using match_street_Some by blast
  have "parse_routing_line \<lparr>loc = l, typ' = t, signature = sig, value' = v\<rparr> rd
      = Inr (AList.update_with_aux [] l
               (\<lambda>es. es @ [\<lparr>rtyp = ''STREET'', stage_id = digit_val a - 1,
                              switch_id = digit_val b - 1, mux_id = int_of_digits mx,
                              sel_id = int_of_digits sel\<rparr>])
               rd)"
    using m ab by (simp add: parse_routing_line_def route_vars_def int_of_digits_def)
  then show "\<exists>a b. st = [a] \<and> sw = [b] \<and> is_digit a \<and> is_digit b
           \<and> parse_routing_line \<lparr>loc = l, typ' = t, signature = sig, value' = v\<rparr> rd
               = Inr (AList.update_with_aux [] l
                        (\<lambda>es. es @ [\<lparr>rtyp = ''STREET'', stage_id = digit_val a - 1,
                                       switch_id = digit_val b - 1, mux_id = int_of_digits mx,
                                       sel_id = int_of_digits sel\<rparr>])
                        rd)
           \<and> 0 \<le> int_of_digits mx \<and> 0 \<le> int_of_digits sel"
    using ab int_of_digits_nonneg by blast
next
  assume "is_digit a \<and> is_digit b \<and> m \<noteq> [] \<and> list_all is_digit m \<and> s \<noteq> [] \<and> list_all is_digit s"
  then show "match_street (''I_street.Isb'' @ [a, b] @ ''.I_M'' @ m @ ''.I_pg'' @ s)
          = Some ([a], [b], m, s)"
    using match_street_form by blast
qed

theorem street_signature_decoding_witness:
  "match_street ''I_street.Isb90.I_M12.I_pg7'' = Some (''9'', ''0'', ''12'', ''7'')
   \<and> parse_routing_line
        \<lparr>loc = (2, 3), typ' = ''ROUTING'', signature = ''I_street.Isb90.I_M12.I_pg7'', value' = 1\<rparr> []
      = Inr [((2, 3), [\<lparr>rtyp = ''STREET'', stage_id = 8, switch_id = - 1, mux_id = 12, sel_id = 7\<rparr>])]"
proof -
  have h: "match_street ''I_street.Isb90.I_M12.I_pg7'' = Some (''9'', ''0'', ''12'', ''7'')"
    by (simp add: match_street_def is_digit_def at_end_def)
  from street_signature_decoding
    [of "(2, 3)" 1 "[]" "''I_street.Isb90.I_M12.I_pg7''" "''9''" "''0''" "''12''" "''7''" "''ROUTING''"]
  show ?thesis using h by (simp add: digit_val_def int_of_digits_def)
qed


text \<open>
  Claim C3. A ROUTING feature whose signature matches neither pattern: the call raises
  \<open>UnboundLocalError\<close> for the variable \<open>typ\<close>, after the default dictionary has
  entered an empty list for the location. It is not the exception of the class
  \<open>Fasm2BelsException\<close>, which \<open>parse_fasm_lines\<close> raises for a feature of unsupported
  format. No route entry is appended.
\<close>

theorem unmatched_routing_signature:
  "parse_routing_line
     \<lparr>loc = (1, 1), typ' = ''ROUTING'', signature = ''I_highway.IMx.I_pg0'', value' = 1\<rparr> []
   = Inl (UnboundLocalError ''typ'', [((1, 1), [])])"
  by (simp add: parse_routing_line_def route_vars_def match_street_def match_highway_def
      is_digit_def)


subsection \<open>Settings of logic cells\<close>

lemma split_dot1_two:
  "CHR ''.'' \<notin> set b \<Longrightarrow> split_dot1 (b @ CHR ''.'' # p) = [b, p]"
proof -
  assume b: "CHR ''.'' \<notin> set b"
  then have "takeWhile (\<lambda>c. c \<noteq> CHR ''.'') (b @ CHR ''.'' # p) = b"
    by (induction b) auto
  moreover from b have "dropWhile (\<lambda>c. c \<noteq> CHR ''.'') (b @ CHR ''.'' # p) = CHR ''.'' # p"
    by (induction b) auto
  ultimately show ?thesis by (simp add: split_dot1_def)
qed

lemma split_dot1_one: "CHR ''.'' \<notin> set s \<Longrightarrow> split_dot1 s = [s]"
  by (simp add: split_dot1_def)

lemma settings_at_append:
  "settings_at (AList.update_with_aux [] l (AList.update_with_aux [] b (\<lambda>xs. xs @ ys)) d) l' b'
   = (if l' = l \<and> b' = b then settings_at d l b @ ys else settings_at d l' b')"
  by (auto simp: settings_at_def map_of_update_with_aux split: option.splits)

lemma replace_del_absent: "\<not> contains old s \<Longrightarrow> replace_del old s = s"
  by (induction old s rule: replace_del.induct) auto

lemma strip_prefix_Some_iff: "strip_prefix p s = Some r \<longleftrightarrow> s = p @ r"
  by (induction p s rule: strip_prefix.induct) auto

lemma contains_iff: "contains old s \<longleftrightarrow> (\<exists>u v. s = u @ old @ v)"
proof (induction s)
  case Nil
  then show ?case by auto
next
  case (Cons c cs)
  show ?case
  proof
    assume "contains old (c # cs)"
    then consider "strip_prefix old (c # cs) \<noteq> None" | "contains old cs" by auto
    then show "\<exists>u v. c # cs = u @ old @ v"
    proof cases
      case 1
      then obtain r where "strip_prefix old (c # cs) = Some r" by auto
      then have "c # cs = [] @ old @ r" by (simp add: strip_prefix_Some_iff)
      then show ?thesis by blast
    next
      case 2
      then obtain u v where "cs = u @ old @ v" using Cons.IH by auto
      then have "c # cs = (c # u) @ old @ v" by simp
      then show ?thesis by blast
    qed
  next
    assume "\<exists>u v. c # cs = u @ old @ v"
    then obtain u v where uv: "c # cs = u @ old @ v" by auto
    show "contains old (c # cs)"
    proof (cases u)
      case Nil
      then have "strip_prefix old (c # cs) = Some v" using uv by (simp add: strip_prefix_Some_iff)
      then show ?thesis by simp
    next
      case (Cons a u')
      then have "cs = u' @ old @ v" using uv by simp
      then show ?thesis using Cons.IH by auto
    qed
  qed
qed

lemma contains_ZINV_INV: "contains ''ZINV.'' s \<Longrightarrow> contains ''INV.'' s"
proof -
  assume "contains ''ZINV.'' s"
  then obtain u v where "s = u @ ''ZINV.'' @ v" by (auto simp: contains_iff)
  then have "s = (u @ ''Z'') @ ''INV.'' @ v" by simp
  then show ?thesis unfolding contains_iff by blast
qed

lemma logic_setting_plain: "\<not> contains ''INV.'' p \<Longrightarrow> logic_setting p = p"
  using contains_ZINV_INV by (auto simp: logic_setting_def)

lemma logic_setting_ZINV:
  assumes "\<not> contains ''INV.'' p"
  shows "logic_setting (''ZINV.'' @ p) = p"
proof -
  have "\<not> contains ''ZINV.'' p" using assms contains_ZINV_INV by blast
  then show ?thesis by (simp add: logic_setting_def replace_del_absent)
qed

lemma logic_setting_INV:
  assumes "\<not> contains ''INV.'' p"
  shows "logic_setting (''INV.'' @ p) = p"
proof -
  have "\<not> contains ''ZINV.'' p" using assms contains_ZINV_INV by blast
  then show ?thesis using assms by (simp add: logic_setting_def replace_del_absent)
qed


text \<open>
  Claim C6, as stated, fails at two inputs. A signature without a separator and with value 1
  records nothing: the unpacking raises \<open>ValueError\<close>. A setting path with both
  markers keeps the marker \<open>INV.\<close>, since the branch for \<open>INV.\<close> is an \<open>elif\<close>.
\<close>

theorem logic_line_counterexample:
  "parse_logic_line \<lparr>loc = (1, 1), typ' = ''LOGIC'', signature = ''BEL0'', value' = 1\<rparr> []
   = Inl (ValueError, [])
   \<and> parse_logic_line
       \<lparr>loc = (1, 1), typ' = ''LOGIC'', signature = ''BEL0.ZINV.INV.TA1'', value' = 1\<rparr> []
     = Inr [((1, 1), [(''BEL0'', [''INV.TA1''])])]"
  by (simp add: parse_logic_line_def split_dot1_def logic_setting_def)


text \<open>
  Claim C6, amended. The features of category LOGIC with the signatures
  \<open>BEL0.ZINV.TA1\<close> and \<open>BEL0.QCK\<close>, both of value 1 and at one location, register
  under \<open>BEL0\<close> as \<open>TA1\<close> and \<open>QCK\<close>, in this order. A signature without a
  separator raises \<open>ValueError\<close> and leaves the dictionary as it is, whatever the value.
  A signature \<open>b.p\<close> with no separator in \<open>b\<close> leaves the dictionary as it is when
  the value is not 1; when the value is 1, the rewritten setting is appended to the list
  of \<open>b\<close> at the feature's location and every other list stays as it is. The rewriting
  deletes every \<open>ZINV.\<close> when the path contains one, and otherwise every \<open>INV.\<close>;
  a path without \<open>INV.\<close> is kept, and one marker in front of such a path is stripped.
\<close>

theorem logic_line_recording:
  "(\<exists>d1. parse_logic_line
            \<lparr>loc = l, typ' = ''LOGIC'', signature = ''BEL0.ZINV.TA1'', value' = 1\<rparr> [] = Inr d1
        \<and> parse_logic_line
            \<lparr>loc = l, typ' = ''LOGIC'', signature = ''BEL0.QCK'', value' = 1\<rparr> d1
          = Inr [(l, [(''BEL0'', [''TA1'', ''QCK''])])])
   \<and> (CHR ''.'' \<notin> set sig \<longrightarrow>
        parse_logic_line \<lparr>loc = l, typ' = t, signature = sig, value' = v\<rparr> d = Inl (ValueError, d))
   \<and> (CHR ''.'' \<notin> set b \<longrightarrow>
        (v \<noteq> 1 \<longrightarrow>
           parse_logic_line \<lparr>loc = l, typ' = t, signature = b @ ''.'' @ p, value' = v\<rparr> d = Inr d)
        \<and> (\<exists>d'. parse_logic_line \<lparr>loc = l, typ' = t, signature = b @ ''.'' @ p, value' = 1\<rparr> d
                   = Inr d'
               \<and> settings_at d' l b = settings_at d l b @ [logic_setting p]
               \<and> (\<forall>l' b'. (l', b') \<noteq> (l, b) \<longrightarrow> settings_at d' l' b' = settings_at d l' b')))
   \<and> (contains ''ZINV.'' p \<longrightarrow> logic_setting p = replace_del ''ZINV.'' p)
   \<and> (\<not> contains ''ZINV.'' p \<longrightarrow> logic_setting p = replace_del ''INV.'' p)
   \<and> (\<not> contains ''INV.'' p \<longrightarrow>
        logic_setting p = p \<and> logic_setting (''ZINV.'' @ p) = p \<and> logic_setting (''INV.'' @ p) = p)"
proof (intro conjI impI)
  show "\<exists>d1. parse_logic_line
            \<lparr>loc = l, typ' = ''LOGIC'', signature = ''BEL0.ZINV.TA1'', value' = 1\<rparr> [] = Inr d1
        \<and> parse_logic_line
            \<lparr>loc = l, typ' = ''LOGIC'', signature = ''BEL0.QCK'', value' = 1\<rparr> d1
          = Inr [(l, [(''BEL0'', [''TA1'', ''QCK''])])]"
    by (simp add: parse_logic_line_def split_dot1_def logic_setting_def)
next
  assume "CHR ''.'' \<notin> set sig"
  then show "parse_logic_line \<lparr>loc = l, typ' = t, signature = sig, value' = v\<rparr> d
      = Inl (ValueError, d)"
    by (simp add: parse_logic_line_def split_dot1_one)
next
  assume "CHR ''.'' \<notin> set b" and "v \<noteq> 1"
  then show "parse_logic_line \<lparr>loc = l, typ' = t, signature = b @ ''.'' @ p, value' = v\<rparr> d
      = Inr d"
    by (simp add: parse_logic_line_def split_dot1_two)
next
  assume b: "CHR ''.'' \<notin> set b"
  let ?d' = "AList.update_with_aux [] l
               (AList.update_with_aux [] b (\<lambda>xs. xs @ [logic_setting p])) d"
  have "parse_logic_line \<lparr>loc = l, typ' = t, signature = b @ ''.'' @ p, value' = 1\<rparr> d = Inr ?d'"
    using b by (simp add: parse_logic_line_def split_dot1_two)
  moreover have "settings_at ?d' l b = settings_at d l b @ [logic_setting p]"
    by (simp add: settings_at_append)
  moreover have "\<forall>l' b'. (l', b') \<noteq> (l, b) \<longrightarrow> settings_at ?d' l' b' = settings_at d l' b'"
    by (simp add: settings_at_append)
  ultimately show "\<exists>d'. parse_logic_line
        \<lparr>loc = l, typ' = t, signature = b @ ''.'' @ p, value' = 1\<rparr> d = Inr d'
      \<and> settings_at d' l b = settings_at d l b @ [logic_setting p]
      \<and> (\<forall>l' b'. (l', b') \<noteq> (l, b) \<longrightarrow> settings_at d' l' b' = settings_at d l' b')"
    by blast
next
  assume "contains ''ZINV.'' p"
  then show "logic_setting p = replace_del ''ZINV.'' p" by (simp add: logic_setting_def)
next
  assume "\<not> contains ''ZINV.'' p"
  then show "logic_setting p = replace_del ''INV.'' p"
    by (simp add: logic_setting_def replace_del_absent)
next
  assume "\<not> contains ''INV.'' p"
  then show "logic_setting p = p" by (rule logic_setting_plain)
next
  assume "\<not> contains ''INV.'' p"
  then show "logic_setting (''ZINV.'' @ p) = p" by (rule logic_setting_ZINV)
next
  assume "\<not> contains ''INV.'' p"
  then show "logic_setting (''INV.'' @ p) = p" by (rule logic_setting_INV)
qed

theorem logic_line_recording_witness:
  "CHR ''.'' \<notin> set ''BIDIR'' \<and> \<not> contains ''INV.'' ''ESEL''
   \<and> (\<exists>d'. parse_logic_line
              \<lparr>loc = (4, 2), typ' = ''QMUX'', signature = ''BIDIR.INV.ESEL'', value' = 1\<rparr>
              [((4, 2), [(''BIDIR'', [''OSEL''])])] = Inr d'
          \<and> settings_at d' (4, 2) ''BIDIR'' = [''OSEL'', ''ESEL''])
   \<and> parse_logic_line
        \<lparr>loc = (4, 2), typ' = ''QMUX'', signature = ''BIDIR.INV.ESEL'', value' = 0\<rparr>
        [((4, 2), [(''BIDIR'', [''OSEL''])])] = Inr [((4, 2), [(''BIDIR'', [''OSEL''])])]"
proof -
  have h1: "CHR ''.'' \<notin> set ''BIDIR''" by simp
  have h2: "\<not> contains ''INV.'' ''ESEL''" by simp
  have h3: "(0::int) \<noteq> 1" by simp
  have s: "settings_at [((4, 2), [(''BIDIR'', [''OSEL''])])] (4, 2) ''BIDIR'' = [''OSEL'']"
    by (simp add: settings_at_def)
  from logic_line_recording
    [of "(4, 2)" "''x''" "''QMUX''" 0 "[((4, 2), [(''BIDIR'', [''OSEL''])])]" "''BIDIR''" "''INV.ESEL''"]
  have a: "\<exists>d'. parse_logic_line
              \<lparr>loc = (4, 2), typ' = ''QMUX'', signature = ''BIDIR.INV.ESEL'', value' = 1\<rparr>
              [((4, 2), [(''BIDIR'', [''OSEL''])])] = Inr d'
          \<and> settings_at d' (4, 2) ''BIDIR'' = [''OSEL''] @ [logic_setting ''INV.ESEL'']"
    and b: "parse_logic_line
        \<lparr>loc = (4, 2), typ' = ''QMUX'', signature = ''BIDIR.INV.ESEL'', value' = 0\<rparr>
        [((4, 2), [(''BIDIR'', [''OSEL''])])] = Inr [((4, 2), [(''BIDIR'', [''OSEL''])])]"
    using h1 h3 s by auto
  from logic_line_recording [where p = "''ESEL''"] h2
  have "logic_setting ''INV.ESEL'' = ''ESEL''" by simp
  with a b h1 h2 show ?thesis by simp
qed


section \<open>Properties of the unification of cells\<close>

text \<open>
  Claim C1. \<open>resolve_multiloc_cells\<close> stores the unified settings in the attribute
  \<open>belinversion\<close>, and \<open>produce_verilog\<close> hands on \<open>belinversions\<close>: the map handed
  on is the one from before the unification. For the cell ASSP with settings at \<open>(1, 2)\<close>
  and \<open>(1, 3)\<close> and the canonical location \<open>(1, 1)\<close>, the settings handed on are
  still at the two source locations and none is at \<open>(1, 1)\<close>, while \<open>belinversion\<close>
  holds both settings at \<open>(1, 1)\<close>.
\<close>

theorem unified_settings_not_handed_on:
  "fst (produce_verilog_args (resolve_multiloc_cells cells self)) = belinversions self
   \<and> fst (produce_verilog_args
          (resolve_multiloc_cells
             [(''ASSP'', \<lparr>mtyp = ''ASSP'', fromlocset = {(1, 1), (1, 2), (1, 3)},
                          toloc = (1, 1), pinnames = {}\<rparr>)]
             \<lparr>belinversions = [((1, 2), [(''ASSP'', [''a''])]), ((1, 3), [(''ASSP'', [''b''])])],
              interfaces = [], designconnections = [], belinversion = None\<rparr>))
   = [((1, 2), [(''ASSP'', [''a''])]), ((1, 3), [(''ASSP'', [''b''])])]
   \<and> belinversion
        (resolve_multiloc_cells
           [(''ASSP'', \<lparr>mtyp = ''ASSP'', fromlocset = {(1, 1), (1, 2), (1, 3)},
                        toloc = (1, 1), pinnames = {}\<rparr>)]
           \<lparr>belinversions = [((1, 2), [(''ASSP'', [''a''])]), ((1, 3), [(''ASSP'', [''b''])])],
            interfaces = [], designconnections = [], belinversion = None\<rparr>)
     = Some [((1, 1), [(''ASSP'', [''a'', ''b''])])]"
  by (simp add: produce_verilog_args_def resolve_multiloc_cells_def unify_belinversions_def
      unify_bel_def)


section \<open>Properties of hop resolution\<close>

lemma hops_at_touch [simp]: "hops_at (touch_hops t H) = hops_at H"
  by (rule ext) (simp add: hops_at_def touch_hops_def map_of_update_with_aux split: option.splits)

lemma hop_entry_hops_at: "hops_at H' = hops_at H \<Longrightarrow> hop_entry H' = hop_entry H"
  by (rule ext) (simp add: hop_entry_def)

lemma hop_edges_hops_at: "hops_at H' = hops_at H \<Longrightarrow> hop_edges g H' = hop_edges g H"
  using hop_entry_hops_at[of H' H] by (simp add: hop_edges_def)

lemma follow_hops_no_hop [simp]:
  "follow_hops g H tloc (n, None) = Some ((tloc, n), H)"
  by (subst follow_hops.simps) simp

lemma follow_hops_step:
  "follow_hops g H tloc (n, Some off) =
     (case hop_entry H ((fst tloc + fst off, snd tloc + snd off), n) of
        Some v \<Rightarrow>
          follow_hops g (touch_hops (fst tloc + fst off, snd tloc + snd off) H)
            (fst tloc + fst off, snd tloc + snd off) (g v)
      | None \<Rightarrow>
          Some (((fst tloc + fst off, snd tloc + snd off), n),
                touch_hops (fst tloc + fst off, snd tloc + snd off) H))"
  by (subst follow_hops.simps) (simp add: hop_entry_def split: option.splits)

lemma follow_hops_hops_at:
  assumes "follow_hops g H tloc hop = Some y"
  shows "hops_at (snd y) = hops_at H"
proof (rule follow_hops.raw_induct
    [where P = "\<lambda>g H tloc hop y. hops_at (snd y) = hops_at H", OF _ assms])
  fix f :: "(string \<Rightarrow> string \<times> (int \<times> int) option) \<Rightarrow> string conns \<Rightarrow> Loc
            \<Rightarrow> string \<times> (int \<times> int) option \<Rightarrow> ((Loc \<times> string) \<times> string conns) option"
  fix g H tloc hop y
  assume IH: "\<And>g' H' t' h' y'. f g' H' t' h' = Some y' \<Longrightarrow> hops_at (snd y') = hops_at H'"
  assume body: "(case snd hop of
        None \<Rightarrow> Some ((tloc, fst hop), H)
      | Some off \<Rightarrow>
          (case map_of (hops_at H (fst tloc + fst off, snd tloc + snd off)) (fst hop) of
             None \<Rightarrow>
               f g (touch_hops (fst tloc + fst off, snd tloc + snd off) H)
                 (fst tloc + fst off, snd tloc + snd off) (fst hop, None)
           | Some v \<Rightarrow>
               f g (touch_hops (fst tloc + fst off, snd tloc + snd off) H)
                 (fst tloc + fst off, snd tloc + snd off) (g v))) = Some y"
  show "hops_at (snd y) = hops_at H"
  proof (cases "snd hop")
    case None
    then show ?thesis using body by auto
  next
    case (Some off)
    then obtain h' where
      "f g (touch_hops (fst tloc + fst off, snd tloc + snd off) H)
         (fst tloc + fst off, snd tloc + snd off) h' = Some y"
      using body by (auto split: option.splits)
    from IH[OF this] show ?thesis by simp
  qed
qed

lemma resolve_pins_hops_at:
  "resolve_pins g H l cs = Some (cs', H') \<Longrightarrow> hops_at H' = hops_at H"
proof (induction cs arbitrary: H cs' H')
  case Nil
  then show ?case by simp
next
  case (Cons ps cs)
  obtain pin source where ps: "ps = (pin, source)" by (cases ps)
  from Cons.prems ps obtain a H1 r where
    1: "follow_hops g H l (g source) = Some (a, H1)" and
    2: "resolve_pins g H1 l cs = Some (r, H')"
    by (auto split: option.splits)
  from follow_hops_hops_at[OF 1] Cons.IH[OF 2] show ?case by simp
qed

lemma resolve_hops_hops_at:
  "resolve_hops g H d = Some (d', H') \<Longrightarrow> hops_at H' = hops_at H"
proof (induction d arbitrary: H d' H')
  case Nil
  then show ?case by simp
next
  case (Cons lc d)
  obtain l cs where lc: "lc = (l, cs)" by (cases lc)
  from Cons.prems lc obtain cs' H1 r where
    1: "resolve_pins g H l cs = Some (cs', H1)" and
    2: "resolve_hops g H1 d = Some (r, H')"
    by (auto split: option.splits)
  from resolve_pins_hops_at[OF 1] Cons.IH[OF 2] show ?case by simp
qed

lemma resolve_hops_keys:
  "resolve_hops g H d = Some (d', H') \<Longrightarrow> map fst d' = map fst d"
proof (induction d arbitrary: H d' H')
  case Nil
  then show ?case by simp
next
  case (Cons lc d)
  obtain l cs where lc: "lc = (l, cs)" by (cases lc)
  from Cons.prems lc obtain cs' H1 r where
    "resolve_hops g H1 d = Some (r, H')" "d' = (l, cs') # r"
    by (auto split: option.splits)
  then show ?case using Cons.IH lc by simp
qed

lemma resolve_pins_direct:
  "resolve_pins g H l cs = Some (cs', H') \<Longrightarrow> map_of cs pin = Some source \<Longrightarrow>
   g source = (source, None) \<Longrightarrow> map_of cs' pin = Some (l, source)"
proof (induction cs arbitrary: H cs' H')
  case Nil
  then show ?case by simp
next
  case (Cons ps cs)
  obtain pin0 source0 where ps: "ps = (pin0, source0)" by (cases ps)
  from Cons.prems(1) ps obtain a H1 r where
    1: "follow_hops g H l (g source0) = Some (a, H1)" and
    2: "resolve_pins g H1 l cs = Some (r, H')" and
    3: "cs' = (pin0, a) # r"
    by (auto split: option.splits)
  show ?case
  proof (cases "pin = pin0")
    case True
    then have "source0 = source" using Cons.prems(2) ps by simp
    then have "a = (l, source)" using 1 Cons.prems(3) by simp
    then show ?thesis using 3 True by simp
  next
    case False
    then have "map_of cs pin = Some source" using Cons.prems(2) ps by simp
    from Cons.IH[OF 2 this Cons.prems(3)] show ?thesis using 3 False by simp
  qed
qed

lemma resolve_hops_direct:
  "resolve_hops g H d = Some (d', H') \<Longrightarrow> conn_at d l pin = Some source \<Longrightarrow>
   g source = (source, None) \<Longrightarrow> conn_at d' l pin = Some (l, source)"
proof (induction d arbitrary: H d' H')
  case Nil
  then show ?case by (simp add: conn_at_def)
next
  case (Cons lc d)
  obtain l0 cs where lc: "lc = (l0, cs)" by (cases lc)
  from Cons.prems(1) lc obtain cs' H1 r where
    1: "resolve_pins g H l0 cs = Some (cs', H1)" and
    2: "resolve_hops g H1 d = Some (r, H')" and
    3: "d' = (l0, cs') # r"
    by (auto split: option.splits)
  show ?case
  proof (cases "l = l0")
    case True
    then have "map_of cs pin = Some source" using Cons.prems(2) lc by (simp add: conn_at_def)
    from resolve_pins_direct[OF 1 this Cons.prems(3)] show ?thesis
      using 3 True by (simp add: conn_at_def)
  next
    case False
    then have "conn_at d l pin = Some source" using Cons.prems(2) lc by (simp add: conn_at_def)
    from Cons.IH[OF 2 this Cons.prems(3)] show ?thesis using 3 False by (simp add: conn_at_def)
  qed
qed

lemma hop_entry_keys:
  "{k. hop_entry H k \<noteq> None} \<subseteq> (\<Union>(l, d) \<in> set H. {l} \<times> fst ` set d)"
proof
  fix k assume "k \<in> {k. hop_entry H k \<noteq> None}"
  then obtain v where v: "map_of (hops_at H (fst k)) (snd k) = Some v"
    by (auto simp: hop_entry_def)
  then obtain d where d: "map_of H (fst k) = Some d" "map_of d (snd k) = Some v"
    by (auto simp: hops_at_def split: option.splits)
  then have "(fst k, d) \<in> set H" "(snd k, v) \<in> set d"
    by (auto dest: map_of_SomeD)
  then have m: "(fst k, d) \<in> set H" and "snd k \<in> fst ` set d"
    by force+
  then have "k \<in> (case (fst k, d) of (l, d) \<Rightarrow> {l} \<times> fst ` set d)"
    by (simp add: mem_Times_iff)
  with m show "k \<in> (\<Union>(l, d) \<in> set H. {l} \<times> fst ` set d)"
    by (rule UN_I)
qed

lemma finite_hop_entry_keys: "finite {k. hop_entry H k \<noteq> None}"
  by (rule finite_subset[OF hop_entry_keys]) auto

lemma finite_hop_edges: "finite (hop_edges g H)"
proof -
  have "hop_edges g H \<subseteq> {k. hop_entry H k \<noteq> None} \<times> {k. hop_entry H k \<noteq> None}"
    by (auto simp: hop_edges_def)
  then show ?thesis
    using finite_hop_entry_keys finite_subset by blast
qed

lemma follow_hops_from_entry:
  assumes ac: "acyclic (hop_edges g H)"
  shows "hops_at H' = hops_at H \<Longrightarrow> hop_entry H k = Some v \<Longrightarrow>
         follow_hops g H' (fst k) (g v) \<noteq> None"
proof -
  have wf: "wf ((hop_edges g H)\<inverse>)"
    using finite_hop_edges ac by (rule finite_acyclic_wf_converse)
  have "\<forall>H' v. hops_at H' = hops_at H \<longrightarrow> hop_entry H k = Some v \<longrightarrow>
          follow_hops g H' (fst k) (g v) \<noteq> None"
  proof (induction k rule: wf_induct[OF wf])
    case (1 k)
    show ?case
    proof (intro allI impI)
      fix H' v assume same: "hops_at H' = hops_at H" and kv: "hop_entry H k = Some v"
      have e: "hop_entry H' = hop_entry H" using same by (rule hop_entry_hops_at)
      obtain n offo where gv: "g v = (n, offo)" by (cases "g v")
      show "follow_hops g H' (fst k) (g v) \<noteq> None"
      proof (cases offo)
        case None
        then show ?thesis using gv by simp
      next
        case (Some off)
        let ?t = "(fst (fst k) + fst off, snd (fst k) + snd off)"
        show ?thesis
        proof (cases "hop_entry H (?t, n)")
          case None
          then show ?thesis using gv Some e by (simp add: follow_hops_step)
        next
          case (Some v')
          have "(k, (?t, n)) \<in> hop_edges g H"
            using kv gv \<open>offo = Some off\<close> Some by (auto simp: hop_edges_def)
          then have "((?t, n), k) \<in> (hop_edges g H)\<inverse>" by simp
          moreover have "hops_at (touch_hops ?t H') = hops_at H" using same by simp
          ultimately have "follow_hops g (touch_hops ?t H') (fst (?t, n)) (g v') \<noteq> None"
            using 1 Some by blast
          then show ?thesis using gv \<open>offo = Some off\<close> Some e by (simp add: follow_hops_step)
        qed
      qed
    qed
  qed
  then show "hops_at H' = hops_at H \<Longrightarrow> hop_entry H k = Some v \<Longrightarrow>
         follow_hops g H' (fst k) (g v) \<noteq> None" by blast
qed

lemma follow_hops_total:
  assumes ac: "acyclic (hop_edges g H)" and same: "hops_at H' = hops_at H"
  shows "follow_hops g H' l h \<noteq> None"
proof -
  have e: "hop_entry H' = hop_entry H" using same by (rule hop_entry_hops_at)
  obtain n offo where h: "h = (n, offo)" by (cases h)
  show ?thesis
  proof (cases offo)
    case None
    then show ?thesis using h by simp
  next
    case (Some off)
    let ?t = "(fst l + fst off, snd l + snd off)"
    show ?thesis
    proof (cases "hop_entry H (?t, n)")
      case None
      then show ?thesis using h Some e by (simp add: follow_hops_step)
    next
      case (Some v')
      have "hops_at (touch_hops ?t H') = hops_at H" using same by simp
      from follow_hops_from_entry[OF ac this Some]
      have "follow_hops g (touch_hops ?t H') ?t (g v') \<noteq> None" by simp
      then show ?thesis using h \<open>offo = Some off\<close> Some e by (simp add: follow_hops_step)
    qed
  qed
qed

lemma resolve_pins_total:
  assumes ac: "acyclic (hop_edges g H)"
  shows "hops_at H' = hops_at H \<Longrightarrow> \<exists>r. resolve_pins g H' l cs = Some r"
proof (induction cs arbitrary: H')
  case Nil
  then show ?case by simp
next
  case (Cons ps cs)
  obtain pin source where ps: "ps = (pin, source)" by (cases ps)
  from follow_hops_total[OF ac Cons.prems] obtain a H1 where
    1: "follow_hops g H' l (g source) = Some (a, H1)" by fastforce
  from follow_hops_hops_at[OF 1] Cons.prems have "hops_at H1 = hops_at H" by simp
  from Cons.IH[OF this] obtain r where "resolve_pins g H1 l cs = Some r" by blast
  then show ?case using ps 1 by (cases r) simp
qed

lemma resolve_hops_total:
  assumes ac: "acyclic (hop_edges g H)"
  shows "hops_at H' = hops_at H \<Longrightarrow> \<exists>r. resolve_hops g H' d = Some r"
proof (induction d arbitrary: H')
  case Nil
  then show ?case by simp
next
  case (Cons lc d)
  obtain l cs where lc: "lc = (l, cs)" by (cases lc)
  from resolve_pins_total[OF ac Cons.prems] obtain cs' H1 where
    1: "resolve_pins g H' l cs = Some (cs', H1)" by fastforce
  from resolve_pins_hops_at[OF 1] Cons.prems have "hops_at H1 = hops_at H" by simp
  from Cons.IH[OF this] obtain r where "resolve_hops g H1 d = Some r" by blast
  then show ?case using lc 1 by (cases r) simp
qed

lemma cyclic_touch [simp]:
  "touch_hops (0, 0) cyclic_hops = cyclic_hops" "touch_hops (1, 0) cyclic_hops = cyclic_hops"
  by (simp_all add: touch_hops_def cyclic_hops_def)

lemma cyclic_follow_None:
  assumes "follow_hops g H tloc hop = Some y"
  shows "\<not> (g = example_decoder \<and> H = cyclic_hops
      \<and> (tloc, hop) \<in> {((0, 0), (''H1L0'', Some (1, 0))), ((1, 0), (''H1L0'', Some (- 1, 0)))})"
proof (rule follow_hops.raw_induct
    [where P = "\<lambda>g H tloc hop y. \<not> (g = example_decoder \<and> H = cyclic_hops
      \<and> (tloc, hop) \<in> {((0, 0), (''H1L0'', Some (1, 0))), ((1, 0), (''H1L0'', Some (- 1, 0)))})",
     OF _ assms])
  fix f :: "(string \<Rightarrow> string \<times> (int \<times> int) option) \<Rightarrow> string conns \<Rightarrow> Loc
            \<Rightarrow> string \<times> (int \<times> int) option \<Rightarrow> ((Loc \<times> string) \<times> string conns) option"
  fix g H tloc hop y
  assume IH: "\<And>g' H' t' h' y'. f g' H' t' h' = Some y' \<Longrightarrow>
      \<not> (g' = example_decoder \<and> H' = cyclic_hops
      \<and> (t', h') \<in> {((0, 0), (''H1L0'', Some (1, 0))), ((1, 0), (''H1L0'', Some (- 1, 0)))})"
  assume body: "(case snd hop of
        None \<Rightarrow> Some ((tloc, fst hop), H)
      | Some off \<Rightarrow>
          (case map_of (hops_at H (fst tloc + fst off, snd tloc + snd off)) (fst hop) of
             None \<Rightarrow>
               f g (touch_hops (fst tloc + fst off, snd tloc + snd off) H)
                 (fst tloc + fst off, snd tloc + snd off) (fst hop, None)
           | Some v \<Rightarrow>
               f g (touch_hops (fst tloc + fst off, snd tloc + snd off) H)
                 (fst tloc + fst off, snd tloc + snd off) (g v))) = Some y"
  show "\<not> (g = example_decoder \<and> H = cyclic_hops
      \<and> (tloc, hop) \<in> {((0, 0), (''H1L0'', Some (1, 0))), ((1, 0), (''H1L0'', Some (- 1, 0)))})"
  proof
    assume a: "g = example_decoder \<and> H = cyclic_hops
      \<and> (tloc, hop) \<in> {((0, 0), (''H1L0'', Some (1, 0))), ((1, 0), (''H1L0'', Some (- 1, 0)))}"
    then consider (right) "tloc = (0, 0)" "hop = (''H1L0'', Some (1, 0))"
      | (left) "tloc = (1, 0)" "hop = (''H1L0'', Some (- 1, 0))" by auto
    then show False
    proof cases
      case right
      have "map_of (hops_at cyclic_hops (1, 0)) ''H1L0'' = Some ''H1L0_L1''"
        by (simp add: hops_at_def cyclic_hops_def)
      with a body right
      have "f example_decoder cyclic_hops (1, 0) (''H1L0'', Some (- 1, 0)) = Some y"
        by (simp add: example_decoder_def)
      from IH[OF this] show False by simp
    next
      case left
      have "map_of (hops_at cyclic_hops (0, 0)) ''H1L0'' = Some ''H1L0_R1''"
        by (simp add: hops_at_def cyclic_hops_def)
      with a body left
      have "f example_decoder cyclic_hops (0, 0) (''H1L0'', Some (1, 0)) = Some y"
        by (simp add: example_decoder_def)
      from IH[OF this] show False by simp
    qed
  qed
qed

lemma cyclic_resolve_None:
  "resolve_hops example_decoder cyclic_hops [((0, 0), [(''A'', ''H1L0_R1'')])] = None"
proof -
  have "follow_hops example_decoder cyclic_hops (0, 0) (''H1L0'', Some (1, 0)) = None"
    using cyclic_follow_None[of example_decoder cyclic_hops "(0, 0)" "(''H1L0'', Some (1, 0))"]
    by (cases "follow_hops example_decoder cyclic_hops (0, 0) (''H1L0'', Some (1, 0))") auto
  then show ?thesis by (simp add: example_decoder_def)
qed

lemma cyclic_not_acyclic: "\<not> acyclic (hop_edges example_decoder cyclic_hops)"
proof -
  let ?a = "((0::int, 0::int), ''H1L0'')" and ?b = "((1::int, 0::int), ''H1L0'')"
  have 1: "(?a, ?b) \<in> hop_edges example_decoder cyclic_hops"
    by (simp add: hop_edges_def hop_entry_def hops_at_def cyclic_hops_def example_decoder_def)
  have 2: "(?b, ?a) \<in> hop_edges example_decoder cyclic_hops"
    by (simp add: hop_edges_def hop_entry_def hops_at_def cyclic_hops_def example_decoder_def)
  from 1 2 have "(?a, ?a) \<in> (hop_edges example_decoder cyclic_hops)\<^sup>+" by (rule trancl_into_trancl2[OF _ r_into_trancl])
  then show ?thesis by (auto simp: acyclic_def)
qed

text \<open>
  Claim C7. A connection entry whose source name is no hop, that is, which the decoder
  returns unchanged and without an offset: the loop ends at once with the entry's own
  location and the source name, and reads no hop table. A map with this one entry is
  resolved to that pair, and whenever \<open>resolve_hops\<close> returns for a map that holds the
  entry, the entry of the result is that pair.
\<close>

theorem direct_source_unchanged:
  assumes "get_name_and_hop source = (source, None)"
  shows "follow_hops get_name_and_hop designhops l (get_name_and_hop source)
           = Some ((l, source), designhops)
     \<and> resolve_hops get_name_and_hop designhops [(l, [(pin, source)])]
           = Some ([(l, [(pin, (l, source))])], designhops)
     \<and> (conn_at d l pin = Some source
          \<and> resolve_hops get_name_and_hop designhops d = Some (d', designhops')
          \<longrightarrow> conn_at d' l pin = Some (l, source))"
proof (intro conjI impI)
  show f: "follow_hops get_name_and_hop designhops l (get_name_and_hop source)
      = Some ((l, source), designhops)"
    using assms by simp
  show "resolve_hops get_name_and_hop designhops [(l, [(pin, source)])]
           = Some ([(l, [(pin, (l, source))])], designhops)"
    using f by simp
  assume "conn_at d l pin = Some source
      \<and> resolve_hops get_name_and_hop designhops d = Some (d', designhops')"
  then show "conn_at d' l pin = Some (l, source)"
    using resolve_hops_direct[of get_name_and_hop designhops d d' designhops' l pin source] assms
    by simp
qed

theorem direct_source_unchanged_witness:
  "example_decoder ''QZ'' = (''QZ'', None)
   \<and> conn_at [((2, 3), [(''A'', ''QZ''), (''B'', ''H1L0_R1'')])] (2, 3) ''A'' = Some ''QZ''
   \<and> resolve_hops example_decoder straight_hops [((2, 3), [(''A'', ''QZ''), (''B'', ''H1L0_R1'')])]
       = Some ([((2, 3), [(''A'', ((2, 3), ''QZ'')), (''B'', ((3, 3), ''H1L0''))])],
               [((1, 0), [(''H1L0'', ''QZ'')]), ((3, 3), [])])
   \<and> conn_at [((2, 3), [(''A'', ((2, 3), ''QZ'')), (''B'', ((3, 3), ''H1L0''))])] (2, 3) ''A''
       = Some ((2 :: int, 3 :: int), ''QZ'')"
proof -
  have h: "example_decoder ''QZ'' = (''QZ'', None)" by (simp add: example_decoder_def)
  have c: "conn_at [((2, 3), [(''A'', ''QZ''), (''B'', ''H1L0_R1'')])] (2, 3) ''A'' = Some ''QZ''"
    by (simp add: conn_at_def)
  have r: "resolve_hops example_decoder straight_hops
             [((2, 3), [(''A'', ''QZ''), (''B'', ''H1L0_R1'')])]
       = Some ([((2, 3), [(''A'', ((2, 3), ''QZ'')), (''B'', ((3, 3), ''H1L0''))])],
               [((1, 0), [(''H1L0'', ''QZ'')]), ((3, 3), [])])"
    by (simp add: example_decoder_def straight_hops_def follow_hops.simps hops_at_def
        touch_hops_def)
  from direct_source_unchanged
    [where get_name_and_hop = example_decoder and source = "''QZ''"
       and designhops = straight_hops and l = "(2, 3)" and pin = "''A''"
       and d = "[((2, 3), [(''A'', ''QZ''), (''B'', ''H1L0_R1'')])]"
       and d' = "[((2, 3), [(''A'', ((2, 3), ''QZ'')), (''B'', ((3, 3), ''H1L0''))])]"
       and designhops' = "[((1, 0), [(''H1L0'', ''QZ'')]), ((3, 3), [])]"] h c r
  have "conn_at [((2, 3), [(''A'', ((2, 3), ''QZ'')), (''B'', ((3, 3), ''H1L0''))])] (2, 3) ''A''
       = Some ((2 :: int, 3 :: int), ''QZ'')" by blast
  with h c r show ?thesis by blast
qed

text \<open>
  Claim C9. When the relation of iterated hop lookup is acyclic, \<open>resolve_hops\<close> returns
  for every connection map and every decoder. The loop has no guard: for the hop tables
  \<open>cyclic_hops\<close>, whose two entries lead to each other, the relation has a cycle and
  \<open>resolve_hops\<close> does not return for a connection that enters it.
\<close>

theorem hop_resolution_termination:
  "(acyclic (hop_edges get_name_and_hop designhops) \<longrightarrow>
      (\<exists>r. resolve_hops get_name_and_hop designhops d = Some r))
   \<and> \<not> acyclic (hop_edges example_decoder cyclic_hops)
   \<and> resolve_hops example_decoder cyclic_hops [((0, 0), [(''A'', ''H1L0_R1'')])] = None"
proof (intro conjI impI)
  assume "acyclic (hop_edges get_name_and_hop designhops)"
  then show "\<exists>r. resolve_hops get_name_and_hop designhops d = Some r"
    by (rule resolve_hops_total) simp
next
  show "\<not> acyclic (hop_edges example_decoder cyclic_hops)" by (rule cyclic_not_acyclic)
next
  show "resolve_hops example_decoder cyclic_hops [((0, 0), [(''A'', ''H1L0_R1'')])] = None"
    by (rule cyclic_resolve_None)
qed

theorem hop_resolution_termination_witness:
  "acyclic (hop_edges example_decoder straight_hops)
   \<and> (\<exists>r. resolve_hops example_decoder straight_hops [((0, 0), [(''A'', ''H1L0_R1'')])] = Some r)
   \<and> resolve_hops example_decoder straight_hops [((0, 0), [(''A'', ''H1L0_R1'')])]
       = Some ([((0, 0), [(''A'', ((1, 0), ''QZ''))])], straight_hops)"
proof -
  have "hop_edges example_decoder straight_hops = {}"
    by (auto simp: hop_edges_def hop_entry_def hops_at_def straight_hops_def example_decoder_def
        split: if_splits)
  then have a: "acyclic (hop_edges example_decoder straight_hops)"
    by (simp add: acyclic_def)
  have r: "resolve_hops example_decoder straight_hops [((0, 0), [(''A'', ''H1L0_R1'')])]
       = Some ([((0, 0), [(''A'', ((1, 0), ''QZ''))])], straight_hops)"
    by (simp add: example_decoder_def straight_hops_def follow_hops.simps hops_at_def
        touch_hops_def)
  from hop_resolution_termination
    [of example_decoder straight_hops "[((0, 0), [(''A'', ''H1L0_R1'')])]"] a
  have "\<exists>r. resolve_hops example_decoder straight_hops [((0, 0), [(''A'', ''H1L0_R1'')])] = Some r"
    by blast
  with a r show ?thesis by blast
qed

section \<open>Properties of switchbox decoding\<close>

lemma sel_entry_init:
  "sel_entry (init_mux_sel sb) a = (if mux_declared sb a then Some None else None)"
  by (auto simp: sel_entry_def init_mux_sel_def mux_declared_def split: option.splits)

lemma set_mux_sel_Cons:
  "set_mux_sel (f # fs) ms =
     (case sel_entry ms (mux_addr f) of
        None \<Rightarrow> Inl LookupError
      | Some (Some s) \<Rightarrow> Inl (AssertionError_feature f)
      | Some None \<Rightarrow>
          set_mux_sel fs
            (ms(stage_id f \<mapsto>
               (the (ms (stage_id f)))(switch_id f \<mapsto>
                 (the ((the (ms (stage_id f))) (switch_id f)))(mux_id f \<mapsto> Some (sel_id f))))))"
  by (auto simp: sel_entry_def mux_addr_def split: option.splits)

lemma sel_entry_store:
  "sel_entry ms (mux_addr f) \<noteq> None \<Longrightarrow>
   sel_entry
     (ms(stage_id f \<mapsto>
        (the (ms (stage_id f)))(switch_id f \<mapsto>
          (the ((the (ms (stage_id f))) (switch_id f)))(mux_id f \<mapsto> Some (sel_id f))))) a
   = (if a = mux_addr f then Some (Some (sel_id f)) else sel_entry ms a)"
  by (cases a) (auto simp: sel_entry_def mux_addr_def split: option.splits)

lemma set_mux_sel_fails:
  "\<not> distinct (map mux_addr fs) \<or> (\<exists>f \<in> set fs. \<exists>s. sel_entry ms (mux_addr f) = Some (Some s))
   \<Longrightarrow> \<exists>e. set_mux_sel fs ms = Inl e"
proof (induction fs arbitrary: ms)
  case Nil
  then show ?case by simp
next
  case (Cons f fs)
  show ?case
  proof (cases "sel_entry ms (mux_addr f)")
    case None
    then show ?thesis by (simp add: set_mux_sel_Cons del: set_mux_sel.simps)
  next
    case (Some e)
    show ?thesis
    proof (cases e)
      case (Some s)
      then show ?thesis using \<open>sel_entry ms (mux_addr f) = Some e\<close> by (simp add: set_mux_sel_Cons del: set_mux_sel.simps)
    next
      case None
      let ?ms = "ms(stage_id f \<mapsto>
               (the (ms (stage_id f)))(switch_id f \<mapsto>
                 (the ((the (ms (stage_id f))) (switch_id f)))(mux_id f \<mapsto> Some (sel_id f))))"
      have un: "sel_entry ms (mux_addr f) = Some None"
        using None \<open>sel_entry ms (mux_addr f) = Some e\<close> by simp
      have st: "\<And>a. sel_entry ?ms a = (if a = mux_addr f then Some (Some (sel_id f)) else sel_entry ms a)"
        using un by (intro sel_entry_store) simp
      have "\<not> distinct (map mux_addr fs)
            \<or> (\<exists>f' \<in> set fs. \<exists>s. sel_entry ?ms (mux_addr f') = Some (Some s))"
        using Cons.prems un by (auto simp: st)
      then obtain e' where "set_mux_sel fs ?ms = Inl e'" using Cons.IH by blast
      moreover have "set_mux_sel (f # fs) ms = set_mux_sel fs ?ms"
        using un by (simp add: set_mux_sel_Cons del: set_mux_sel.simps)
      ultimately show ?thesis by (metis)
    qed
  qed
qed

lemma set_mux_sel_conflict:
  "\<forall>f \<in> set fs. sel_entry ms (mux_addr f) \<noteq> None \<Longrightarrow>
   \<not> distinct (map mux_addr fs) \<or> (\<exists>f \<in> set fs. \<exists>s. sel_entry ms (mux_addr f) = Some (Some s))
   \<Longrightarrow> \<exists>g \<in> set fs. set_mux_sel fs ms = Inl (AssertionError_feature g)"
proof (induction fs arbitrary: ms)
  case Nil
  then show ?case by simp
next
  case (Cons f fs)
  from Cons.prems(1) obtain e where e: "sel_entry ms (mux_addr f) = Some e" by auto
  show ?case
  proof (cases e)
    case (Some s)
    then show ?thesis using e by (simp add: set_mux_sel_Cons del: set_mux_sel.simps)
  next
    case None
    let ?ms = "ms(stage_id f \<mapsto>
             (the (ms (stage_id f)))(switch_id f \<mapsto>
               (the ((the (ms (stage_id f))) (switch_id f)))(mux_id f \<mapsto> Some (sel_id f))))"
    have un: "sel_entry ms (mux_addr f) = Some None" using None e by simp
    have st: "\<And>a. sel_entry ?ms a = (if a = mux_addr f then Some (Some (sel_id f)) else sel_entry ms a)"
      using un by (intro sel_entry_store) simp
    have 1: "\<forall>f' \<in> set fs. sel_entry ?ms (mux_addr f') \<noteq> None"
      using Cons.prems(1) by (auto simp: st)
    have 2: "\<not> distinct (map mux_addr fs)
          \<or> (\<exists>f' \<in> set fs. \<exists>s. sel_entry ?ms (mux_addr f') = Some (Some s))"
      using Cons.prems(2) un by (auto simp: st)
    from Cons.IH[OF 1 2] obtain g where g: "g \<in> set fs"
      "set_mux_sel fs ?ms = Inl (AssertionError_feature g)" by blast
    have "set_mux_sel (f # fs) ms = set_mux_sel fs ?ms"
      using un by (simp add: set_mux_sel_Cons del: set_mux_sel.simps)
    with g have "g \<in> set (f # fs)" "set_mux_sel (f # fs) ms = Inl (AssertionError_feature g)"
      by (simp, metis)
    then show ?thesis by blast
  qed
qed

lemma set_mux_sel_no_conflict:
  "distinct (map mux_addr fs) \<Longrightarrow>
   \<forall>f \<in> set fs. \<forall>s. sel_entry ms (mux_addr f) \<noteq> Some (Some s) \<Longrightarrow>
   set_mux_sel fs ms \<noteq> Inl (AssertionError_feature g)"
proof (induction fs arbitrary: ms)
  case Nil
  then show ?case by simp
next
  case (Cons f fs)
  show ?case
  proof (cases "sel_entry ms (mux_addr f)")
    case None
    then show ?thesis by (simp add: set_mux_sel_Cons del: set_mux_sel.simps)
  next
    case (Some e)
    then have un: "sel_entry ms (mux_addr f) = Some None"
      using Cons.prems(2) by (cases e) auto
    let ?ms = "ms(stage_id f \<mapsto>
             (the (ms (stage_id f)))(switch_id f \<mapsto>
               (the ((the (ms (stage_id f))) (switch_id f)))(mux_id f \<mapsto> Some (sel_id f))))"
    have st: "\<And>a. sel_entry ?ms a = (if a = mux_addr f then Some (Some (sel_id f)) else sel_entry ms a)"
      using un by (intro sel_entry_store) simp
    have 1: "distinct (map mux_addr fs)" using Cons.prems(1) by simp
    have "\<forall>f' \<in> set fs. mux_addr f' \<noteq> mux_addr f"
      using Cons.prems(1) by (metis distinct.simps(2) imageI list.simps(9) set_map)
    then have 2: "\<forall>f' \<in> set fs. \<forall>s. sel_entry ?ms (mux_addr f') \<noteq> Some (Some s)"
      using Cons.prems(2) by (simp add: st)
    from Cons.IH[OF 1 2] have "set_mux_sel fs ?ms \<noteq> Inl (AssertionError_feature g)" .
    moreover have "set_mux_sel (f # fs) ms = set_mux_sel fs ?ms"
      using un by (simp add: set_mux_sel_Cons del: set_mux_sel.simps)
    ultimately show ?thesis by metis
  qed
qed

lemma expand_no_feature_assertion:
  "expand_mux set_order depth sb ms ol \<noteq> Inl (AssertionError_feature g)"
  "expand_conns set_order depth sb ms cs \<noteq> Inl (AssertionError_feature g)"
  by (induction set_order depth sb ms ol and set_order depth sb ms cs rule: expand_mux_expand_conns.induct)
     (auto split: option.splits sum.splits simp: Let_def)

lemma route_outputs_no_feature_assertion:
  "route_outputs set_order depth sb ms pins routes \<noteq> Inl (AssertionError_feature g)"
  by (induction pins arbitrary: routes)
     (auto split: list.splits sum.splits simp: expand_no_feature_assertion
        simp del: expand_mux.simps)


lemma expand_mux_init:
  "expand_mux set_order depth sb (init_mux_sel sb) ol =
     (if mux_declared sb (pl_stage_id ol, pl_switch_id ol, pl_mux_id ol)
      then Inr None else Inl LookupError)"
  by (auto simp: init_mux_sel_def mux_declared_def split: option.splits)

lemma route_outputs_init:
  "route_outputs set_order depth sb (init_mux_sel sb) pins routes =
     (if list_all
           (\<lambda>out_pin. case locs out_pin of
                         [] \<Rightarrow> False
                       | out_loc # _ \<Rightarrow>
                           mux_declared sb (pl_stage_id out_loc, pl_switch_id out_loc, pl_mux_id out_loc))
           pins
      then Inr (fold (\<lambda>p. AList.update (name p) None) pins routes)
      else Inl LookupError)"
  by (induction pins arbitrary: routes)
     (auto simp: expand_mux_init simp del: expand_mux.simps split: list.splits)

lemma fold_update_keys:
  "fst ` set (fold (\<lambda>p. AList.update (name p) (None :: string option)) pins routes)
   = fst ` set routes \<union> name ` set pins"
  by (induction pins arbitrary: routes) (auto simp: dom_update)

lemma fold_update_None:
  "n \<in> name ` set pins \<Longrightarrow>
   map_of (fold (\<lambda>p. AList.update (name p) (None :: string option)) pins routes) n = Some None"
proof (induction pins arbitrary: routes rule: rev_induct)
  case Nil
  then show ?case by simp
next
  case (snoc p pins)
  then show ?case by (cases "n = name p") (auto simp: update_conv')
qed

text \<open>
  Claim C4, as stated for every switchbox, fails for a switchbox with an output whose
  location is no multiplexer of its stages: the read of the selection table raises.
\<close>

theorem undriven_counterexample:
  "decode_switchbox (\<lambda>cs. cs) 1000 dangling_switchbox [] = Inl LookupError"
  by (simp add: decode_switchbox_def dangling_switchbox_def example_switchbox_def init_mux_sel_def)


text \<open>
  Claim C4, amended. For every switchbox whose output pins each have a first location that
  is a declared multiplexer, decoding with no routing features returns a map whose keys
  are exactly the names of the output pins and in which every output has the value
  \<open>None\<close>. For every other switchbox decoding with no features raises a lookup error.
  Both hold for every recursion limit and every iteration order of the sets.
\<close>

theorem no_features_all_undriven:
  "(outputs_wf switchbox \<longrightarrow>
      (\<exists>routes. decode_switchbox set_order depth switchbox [] = Inr routes
         \<and> fst ` set routes = name ` set (outputs switchbox)
         \<and> (\<forall>n \<in> name ` set (outputs switchbox). map_of routes n = Some None)))
   \<and> (\<not> outputs_wf switchbox \<longrightarrow> decode_switchbox set_order depth switchbox [] = Inl LookupError)"
proof (intro conjI impI)
  assume wf: "outputs_wf switchbox"
  let ?r = "fold (\<lambda>p. AList.update (name p) (None :: string option)) (outputs switchbox) []"
  have "decode_switchbox set_order depth switchbox [] = Inr ?r"
    using wf by (simp add: decode_switchbox_def route_outputs_init outputs_wf_def)
  moreover have "fst ` set ?r = name ` set (outputs switchbox)"
    by (simp add: fold_update_keys)
  moreover have "\<forall>n \<in> name ` set (outputs switchbox). map_of ?r n = Some None"
    using fold_update_None by blast
  ultimately show "\<exists>routes. decode_switchbox set_order depth switchbox [] = Inr routes
         \<and> fst ` set routes = name ` set (outputs switchbox)
         \<and> (\<forall>n \<in> name ` set (outputs switchbox). map_of routes n = Some None)"
    by blast
next
  assume "\<not> outputs_wf switchbox"
  then show "decode_switchbox set_order depth switchbox [] = Inl LookupError"
    by (simp add: decode_switchbox_def route_outputs_init outputs_wf_def)
qed

theorem no_features_all_undriven_witness:
  "outputs_wf example_switchbox
   \<and> decode_switchbox (\<lambda>cs. cs) 1000 example_switchbox [] = Inr [(''OUT'', None)]
   \<and> (\<exists>routes. decode_switchbox (\<lambda>cs. cs) 1000 example_switchbox [] = Inr routes
         \<and> fst ` set routes = name ` set (outputs example_switchbox)
         \<and> map_of routes ''OUT'' = Some None)"
proof -
  have wf: "outputs_wf example_switchbox"
    by (simp add: outputs_wf_def example_switchbox_def mux_declared_def)
  have ev: "decode_switchbox (\<lambda>cs. cs) 1000 example_switchbox [] = Inr [(''OUT'', None)]"
    by (simp add: decode_switchbox_def example_switchbox_def init_mux_sel_def)
  have "''OUT'' \<in> name ` set (outputs example_switchbox)"
    by (simp add: example_switchbox_def)
  with no_features_all_undriven[of example_switchbox "\<lambda>cs. cs" 1000] wf
  have "\<exists>routes. decode_switchbox (\<lambda>cs. cs) 1000 example_switchbox [] = Inr routes
         \<and> fst ` set routes = name ` set (outputs example_switchbox)
         \<and> map_of routes ''OUT'' = Some None"
    by blast
  with wf ev show ?thesis by blast
qed

text \<open>
  Claim C2, as stated, fails when the two features address a multiplexer that the
  switchbox does not declare: the read in the assertion raises a lookup error.
\<close>

theorem conflict_counterexample:
  "decode_switchbox (\<lambda>cs. cs) 1000 example_switchbox [street 5 0 0 1, street 5 0 0 2] = Inl LookupError"
  by (simp add: decode_switchbox_def example_switchbox_def init_mux_sel_def street_def)


text \<open>
  Claim C2, amended. If two routing features address the same triple of stage, switch and
  multiplexer, decoding raises an exception and returns no routes, so no selector is
  overwritten. If moreover every feature addresses a multiplexer that the switchbox
  declares, the exception is the failed assertion that the entry is unset, with one of
  the features as its message. For features with pairwise distinct triples that assertion
  never fails. All three hold for every recursion limit and every iteration order of the
  sets.
\<close>

theorem conflicting_mux_assignment:
  "(\<not> distinct (map mux_addr features) \<longrightarrow>
      (\<exists>e. decode_switchbox set_order depth switchbox features = Inl e))
   \<and> (\<not> distinct (map mux_addr features)
        \<and> (\<forall>f \<in> set features. mux_declared switchbox (mux_addr f)) \<longrightarrow>
      (\<exists>g \<in> set features.
         decode_switchbox set_order depth switchbox features = Inl (AssertionError_feature g)))
   \<and> (distinct (map mux_addr features) \<longrightarrow>
      decode_switchbox set_order depth switchbox features \<noteq> Inl (AssertionError_feature g))"
proof (intro conjI impI)
  assume "\<not> distinct (map mux_addr features)"
  then obtain e where "set_mux_sel features (init_mux_sel switchbox) = Inl e"
    using set_mux_sel_fails by blast
  then show "\<exists>e. decode_switchbox set_order depth switchbox features = Inl e"
    by (simp add: decode_switchbox_def)
next
  assume a: "\<not> distinct (map mux_addr features)
        \<and> (\<forall>f \<in> set features. mux_declared switchbox (mux_addr f))"
  then have "\<forall>f \<in> set features. sel_entry (init_mux_sel switchbox) (mux_addr f) \<noteq> None"
    by (simp add: sel_entry_init)
  with a obtain g where "g \<in> set features"
    "set_mux_sel features (init_mux_sel switchbox) = Inl (AssertionError_feature g)"
    using set_mux_sel_conflict by blast
  then show "\<exists>g \<in> set features.
         decode_switchbox set_order depth switchbox features = Inl (AssertionError_feature g)"
    by (auto simp: decode_switchbox_def)
next
  assume d: "distinct (map mux_addr features)"
  have "\<forall>f \<in> set features. \<forall>s. sel_entry (init_mux_sel switchbox) (mux_addr f) \<noteq> Some (Some s)"
    by (simp add: sel_entry_init)
  with d have "set_mux_sel features (init_mux_sel switchbox) \<noteq> Inl (AssertionError_feature g)"
    by (rule set_mux_sel_no_conflict)
  then show "decode_switchbox set_order depth switchbox features \<noteq> Inl (AssertionError_feature g)"
    by (auto simp: decode_switchbox_def route_outputs_no_feature_assertion split: sum.splits)
qed

theorem conflicting_mux_assignment_witness:
  "\<not> distinct (map mux_addr [street 0 0 0 0, street 0 0 0 1])
   \<and> mux_declared example_switchbox (mux_addr (street 0 0 0 0))
   \<and> mux_declared example_switchbox (mux_addr (street 0 0 0 1))
   \<and> (\<exists>g \<in> set [street 0 0 0 0, street 0 0 0 1].
         decode_switchbox (\<lambda>cs. cs) 1000 example_switchbox [street 0 0 0 0, street 0 0 0 1]
           = Inl (AssertionError_feature g))
   \<and> decode_switchbox (\<lambda>cs. cs) 1000 example_switchbox [street 0 0 0 0, street 0 0 0 1]
       = Inl (AssertionError_feature (street 0 0 0 1))
   \<and> distinct (map mux_addr [street 0 0 0 1])
   \<and> decode_switchbox (\<lambda>cs. cs) 1000 example_switchbox [street 0 0 0 1]
       \<noteq> Inl (AssertionError_feature (street 0 0 0 1))
   \<and> decode_switchbox (\<lambda>cs. cs) 1000 example_switchbox [street 0 0 0 1] = Inr [(''OUT'', Some ''IN1'')]"
proof -
  have nd: "\<not> distinct (map mux_addr [street 0 0 0 0, street 0 0 0 1])"
    by (simp add: mux_addr_def street_def)
  have m0: "mux_declared example_switchbox (mux_addr (street 0 0 0 0))"
    and m1: "mux_declared example_switchbox (mux_addr (street 0 0 0 1))"
    by (simp_all add: mux_declared_def mux_addr_def street_def example_switchbox_def)
  have dd: "distinct (map mux_addr [street 0 0 0 1])" by simp
  from conflicting_mux_assignment
    [of "[street 0 0 0 0, street 0 0 0 1]" "\<lambda>cs. cs" 1000 example_switchbox] nd m0 m1
  have c: "\<exists>g \<in> set [street 0 0 0 0, street 0 0 0 1].
         decode_switchbox (\<lambda>cs. cs) 1000 example_switchbox [street 0 0 0 0, street 0 0 0 1]
           = Inl (AssertionError_feature g)"
    by simp
  from conflicting_mux_assignment
    [of "[street 0 0 0 1]" "\<lambda>cs. cs" 1000 example_switchbox "street 0 0 0 1"] dd
  have n: "decode_switchbox (\<lambda>cs. cs) 1000 example_switchbox [street 0 0 0 1]
       \<noteq> Inl (AssertionError_feature (street 0 0 0 1))"
    by blast
  have e1: "decode_switchbox (\<lambda>cs. cs) 1000 example_switchbox [street 0 0 0 0, street 0 0 0 1]
       = Inl (AssertionError_feature (street 0 0 0 1))"
    by (simp add: decode_switchbox_def example_switchbox_def init_mux_sel_def street_def)
  have e2: "decode_switchbox (\<lambda>cs. cs) 1000 example_switchbox [street 0 0 0 1] = Inr [(''OUT'', Some ''IN1'')]"
    by (simp add: decode_switchbox_def example_switchbox_def init_mux_sel_def street_def)
  from nd m0 m1 c e1 dd n e2 show ?thesis by blast
qed

section \<open>Properties of connection resolution\<close>

lemma features_at_filter:
  "k \<noteq> l \<Longrightarrow> features_at (filter (\<lambda>kv. fst kv \<noteq> l) rd) k = features_at rd k"
  by (induction rd) (auto simp: features_at_def)

lemma process_locations_skip:
  "grid l = None \<Longrightarrow>
   process_locations set_order depth grid types rd ks st
   = process_locations set_order depth grid types (filter (\<lambda>kv. fst kv \<noteq> l) rd) (filter (\<lambda>k. k \<noteq> l) ks) st"
proof (induction ks arbitrary: st)
  case Nil
  then show ?case by simp
next
  case (Cons k ks)
  show ?case
  proof (cases "k = l")
    case True
    then show ?thesis using Cons by simp
  next
    case False
    then show ?thesis using Cons
      by (auto simp: features_at_filter split: option.splits sum.splits)
  qed
qed

lemma sorted_keys_filter:
  "sort (map fst (filter (\<lambda>kv. fst kv \<noteq> l) rd)) = filter (\<lambda>k. k \<noteq> l) (sort (map fst rd))"
proof -
  have "map fst (filter (\<lambda>kv. fst kv \<noteq> l) rd) = filter (\<lambda>k. k \<noteq> l) (map fst rd)"
    by (induction rd) auto
  then show ?thesis by (simp add: filter_sort)
qed

lemma subset_insert_trans: "X \<subseteq> insert l Y \<Longrightarrow> Y \<subseteq> insert l Z \<Longrightarrow> X \<subseteq> insert l Z"
  by blast

lemma subset_keys_skip: "X \<subseteq> Y \<union> {x \<in> set ks. P x} \<Longrightarrow> X \<subseteq> Y \<union> {x \<in> set (k # ks). P x}"
  by auto

lemma subset_keys_step:
  "X1 \<subseteq> insert k X0 \<Longrightarrow> X' \<subseteq> X1 \<union> {x \<in> set ks. P x} \<Longrightarrow> P k \<Longrightarrow>
   X' \<subseteq> X0 \<union> {x \<in> set (k # ks). P x}"
  by auto

lemma store_route_keys:
  "fst ` set (fst (store_route l kv st)) \<subseteq> insert l (fst ` set (fst st))"
  "fst ` set (snd (store_route l kv st)) \<subseteq> insert l (fst ` set (snd st))"
  by (auto simp: store_route_def dom_update_with_aux split: option.splits)

lemma fold_store_route_keys:
  "fst ` set (fst (fold (store_route l) routes st)) \<subseteq> insert l (fst ` set (fst st))"
  "fst ` set (snd (fold (store_route l) routes st)) \<subseteq> insert l (fst ` set (snd st))"
proof (induction routes arbitrary: st)
  case Nil
  {
    case 1 show ?case by auto
  next
    case 2 show ?case by auto
  }
next
  case (Cons kv routes)
  {
    case 1
    show ?case
      using Cons.IH(1)[of "store_route l kv st"] store_route_keys(1)[of l kv st]
      by (simp only: fold_simps emptyE) (rule subset_insert_trans)
  next
    case 2
    show ?case
      using Cons.IH(2)[of "store_route l kv st"] store_route_keys(2)[of l kv st]
      by (simp only: fold_simps) (rule subset_insert_trans)
  }
qed

lemma process_switchbox_keys:
  assumes "process_switchbox set_order depth l sb fs st = Inr st'"
  shows "fst ` set (fst st') \<subseteq> insert l (fst ` set (fst st))"
    and "fst ` set (snd st') \<subseteq> insert l (fst ` set (snd st))"
proof -
  from assms obtain routes where r: "st' = fold (store_route l) routes st"
    by (auto simp: process_switchbox_def split: sum.splits)
  show "fst ` set (fst st') \<subseteq> insert l (fst ` set (fst st))"
    unfolding r by (rule fold_store_route_keys)
  show "fst ` set (snd st') \<subseteq> insert l (fst ` set (snd st))"
    unfolding r by (rule fold_store_route_keys)
qed

lemma process_locations_keys:
  "process_locations set_order depth grid types rd ks st = Inr st' \<Longrightarrow>
   fst ` set (fst st') \<subseteq> fst ` set (fst st) \<union> {k \<in> set ks. grid k \<noteq> None}
   \<and> fst ` set (snd st') \<subseteq> fst ` set (snd st) \<union> {k \<in> set ks. grid k \<noteq> None}"
proof (induction ks arbitrary: st)
  case Nil
  then show ?case by simp
next
  case (Cons k ks)
  show ?case
  proof (cases "grid k")
    case None
    then have "process_locations set_order depth grid types rd ks st = Inr st'" using Cons.prems by simp
    from Cons.IH[OF this] show ?thesis
      by (intro conjI subset_keys_skip) simp_all
  next
    case (Some t)
    then obtain sb st1 where s: "types t = Some sb"
      "process_switchbox set_order depth k sb (features_at rd k) st = Inr st1"
      "process_locations set_order depth grid types rd ks st1 = Inr st'"
      using Cons.prems by (auto split: option.splits sum.splits)
    have g: "grid k \<noteq> None" using Some by simp
    from Cons.IH[OF s(3)] have
      a: "fst ` set (fst st') \<subseteq> fst ` set (fst st1) \<union> {k \<in> set ks. grid k \<noteq> None}"
      and b: "fst ` set (snd st') \<subseteq> fst ` set (snd st1) \<union> {k \<in> set ks. grid k \<noteq> None}"
      by simp_all
    show ?thesis
    proof
      show "fst ` set (fst st') \<subseteq> fst ` set (fst st) \<union> {x \<in> set (k # ks). grid x \<noteq> None}"
        using process_switchbox_keys(1)[OF s(2)] a g by (rule subset_keys_step)
      show "fst ` set (snd st') \<subseteq> fst ` set (snd st) \<union> {x \<in> set (k # ks). grid x \<noteq> None}"
        using process_switchbox_keys(2)[OF s(2)] b g by (rule subset_keys_step)
    qed
  qed
qed

lemma process_locations_off_grid:
  "\<forall>k \<in> set ks. grid k = None \<Longrightarrow> process_locations set_order depth grid types rd ks st = Inr st"
  by (induction ks) auto


text \<open>
  Claim C10. For a location that is no key of the switchbox grid, the routing features
  observed there are discarded without an error: \<open>resolve_connections\<close> gives the same
  result, exception or not, as for the routing data without that location; started from
  empty dictionaries, a run that returns has no entry for the location in the connection
  map and no hop at the location (the hop map holds at most the empty dictionary there,
  which the read \<open>self.designhops[tloc]\<close> enters when a hop lands on the location); and
  when no location of the routing data is in the grid, the run returns the two empty
  dictionaries.
\<close>

theorem off_grid_features_discarded:
  "(grid l = None \<longrightarrow>
      resolve_connections set_order depth get_name_and_hop grid types routingdata st
      = resolve_connections set_order depth get_name_and_hop grid types
          (filter (\<lambda>kv. fst kv \<noteq> l) routingdata) st)
   \<and> (grid l = None
        \<and> resolve_connections set_order depth get_name_and_hop grid types routingdata ([], [])
            = Some (Inr (dc, dh)) \<longrightarrow>
      map_of dc l = None \<and> hops_at dh l = [])
   \<and> ((\<forall>k \<in> fst ` set routingdata. grid k = None) \<longrightarrow>
      resolve_connections set_order depth get_name_and_hop grid types routingdata ([], [])
      = Some (Inr ([], [])))"
proof (intro conjI impI)
  assume "grid l = None"
  then show "resolve_connections set_order depth get_name_and_hop grid types routingdata st
      = resolve_connections set_order depth get_name_and_hop grid types
          (filter (\<lambda>kv. fst kv \<noteq> l) routingdata) st"
    using process_locations_skip[of grid l set_order depth types routingdata "sort (map fst routingdata)" st]
    by (simp add: resolve_connections_def sorted_keys_filter)
next
  assume a: "grid l = None
        \<and> resolve_connections set_order depth get_name_and_hop grid types routingdata ([], [])
            = Some (Inr (dc, dh))"
  then obtain dc0 dh0 where p: "process_locations set_order depth grid types routingdata
        (sort (map fst routingdata)) ([], []) = Inr (dc0, dh0)"
    and r: "resolve_hops get_name_and_hop dh0 dc0 = Some (dc, dh)"
    by (auto simp: resolve_connections_def split: sum.splits option.splits)
  from process_locations_keys[OF p] a have k: "l \<notin> fst ` set dc0" "l \<notin> fst ` set dh0"
    by auto
  have "map fst dc = map fst dc0" using r by (rule resolve_hops_keys)
  then have "fst ` set dc = fst ` set dc0" by (metis set_map)
  with k have "l \<notin> fst ` set dc" by simp
  then have "map_of dc l = None" by (simp add: map_of_eq_None_iff)
  moreover have "map_of dh0 l = None" using k(2) by (simp add: map_of_eq_None_iff)
  then have "hops_at dh0 l = []" by (simp add: hops_at_def)
  then have "hops_at dh l = []" using resolve_hops_hops_at[OF r] by simp
  ultimately show "map_of dc l = None" and "hops_at dh l = []" by simp_all
next
  assume "\<forall>k \<in> fst ` set routingdata. grid k = None"
  then have "\<forall>k \<in> set (sort (map fst routingdata)). grid k = None" by simp
  then have "process_locations set_order depth grid types routingdata (sort (map fst routingdata)) ([], [])
      = Inr ([], [])"
    by (rule process_locations_off_grid)
  then show "resolve_connections set_order depth get_name_and_hop grid types routingdata ([], [])
      = Some (Inr ([], []))"
    by (simp add: resolve_connections_def)
qed

theorem off_grid_features_discarded_witness:
  "[(0 :: int, 0 :: int) \<mapsto> ''SB''] (5, 5) = None
   \<and> resolve_connections (\<lambda>cs. cs) 1000 example_decoder [(0, 0) \<mapsto> ''SB'']
        [''SB'' \<mapsto> example_switchbox]
        [((5, 5), [street 9 9 9 9]), ((0, 0), [street 0 0 0 1])] ([], [])
      = resolve_connections (\<lambda>cs. cs) 1000 example_decoder [(0, 0) \<mapsto> ''SB'']
          [''SB'' \<mapsto> example_switchbox] [((0, 0), [street 0 0 0 1])] ([], [])
   \<and> resolve_connections (\<lambda>cs. cs) 1000 example_decoder [(0, 0) \<mapsto> ''SB'']
        [''SB'' \<mapsto> example_switchbox]
        [((5, 5), [street 9 9 9 9]), ((0, 0), [street 0 0 0 1])] ([], [])
      = Some (Inr ([((0, 0), [(''OUT'', ((0, 0), ''IN1''))])], []))
   \<and> resolve_connections (\<lambda>cs. cs) 1000 example_decoder [(0, 0) \<mapsto> ''SB'']
        [''SB'' \<mapsto> example_switchbox] [((5, 5), [street 9 9 9 9])] ([], [])
      = Some (Inr ([], []))
   \<and> [(0 :: int, 0 :: int) \<mapsto> ''SB''] (1, 0) = None
   \<and> resolve_connections (\<lambda>cs. cs) 1000 example_decoder [(0, 0) \<mapsto> ''SB'']
        [''SB'' \<mapsto> hop_switchbox]
        [((0, 0), [street 0 0 0 1]), ((1, 0), [street 9 9 9 9])] ([], [])
      = Some (Inr ([((0, 0), [(''OUT'', ((1, 0), ''H1L0''))])], [((1, 0), [])]))
   \<and> map_of [((0 :: int, 0 :: int), [(''OUT'', ((1 :: int, 0 :: int), ''H1L0''))])] (1, 0) = None
   \<and> hops_at [((1, 0), [])] (1, 0) = []"
proof -
  have g: "[(0 :: int, 0 :: int) \<mapsto> ''SB''] (5, 5) = None" by simp
  have g': "[(0 :: int, 0 :: int) \<mapsto> ''SB''] (1, 0) = None" by simp
  have f: "filter (\<lambda>kv. fst kv \<noteq> (5, 5))
             [((5 :: int, 5 :: int), [street 9 9 9 9]), ((0, 0), [street 0 0 0 1])]
      = [((0, 0), [street 0 0 0 1])]" by simp
  have o: "\<forall>k \<in> fst ` set [((5 :: int, 5 :: int), [street 9 9 9 9])].
             [(0 :: int, 0 :: int) \<mapsto> ''SB''] k = None"
    by simp
  have e: "resolve_connections (\<lambda>cs. cs) 1000 example_decoder [(0, 0) \<mapsto> ''SB'']
        [''SB'' \<mapsto> example_switchbox] [((0, 0), [street 0 0 0 1])] ([], [])
      = Some (Inr ([((0, 0), [(''OUT'', ((0, 0), ''IN1''))])], []))"
    by (simp add: resolve_connections_def process_switchbox_def decode_switchbox_def
        example_switchbox_def init_mux_sel_def street_def features_at_def store_route_def
        example_decoder_def)
  have h: "resolve_connections (\<lambda>cs. cs) 1000 example_decoder [(0, 0) \<mapsto> ''SB'']
        [''SB'' \<mapsto> hop_switchbox]
        [((0, 0), [street 0 0 0 1]), ((1, 0), [street 9 9 9 9])] ([], [])
      = Some (Inr ([((0, 0), [(''OUT'', ((1, 0), ''H1L0''))])], [((1, 0), [])]))"
    by (simp add: resolve_connections_def process_switchbox_def decode_switchbox_def
        hop_switchbox_def example_switchbox_def init_mux_sel_def street_def features_at_def
        store_route_def example_decoder_def follow_hops.simps hops_at_def touch_hops_def)
  from off_grid_features_discarded
    [of "[(0, 0) \<mapsto> ''SB'']" "(5, 5)" "\<lambda>cs. cs" 1000 example_decoder
        "[''SB'' \<mapsto> example_switchbox]"
        "[((5, 5), [street 9 9 9 9]), ((0, 0), [street 0 0 0 1])]" "([], [])"] g f
  have 1: "resolve_connections (\<lambda>cs. cs) 1000 example_decoder [(0, 0) \<mapsto> ''SB'']
        [''SB'' \<mapsto> example_switchbox]
        [((5, 5), [street 9 9 9 9]), ((0, 0), [street 0 0 0 1])] ([], [])
      = resolve_connections (\<lambda>cs. cs) 1000 example_decoder [(0, 0) \<mapsto> ''SB'']
          [''SB'' \<mapsto> example_switchbox] [((0, 0), [street 0 0 0 1])] ([], [])"
    by simp
  from off_grid_features_discarded
    [of "[(0, 0) \<mapsto> ''SB'']" "(5, 5)" "\<lambda>cs. cs" 1000 example_decoder
        "[''SB'' \<mapsto> example_switchbox]" "[((5, 5), [street 9 9 9 9])]"] o
  have 2: "resolve_connections (\<lambda>cs. cs) 1000 example_decoder [(0, 0) \<mapsto> ''SB'']
        [''SB'' \<mapsto> example_switchbox] [((5, 5), [street 9 9 9 9])] ([], [])
      = Some (Inr ([], []))"
    by blast
  from off_grid_features_discarded
    [where grid = "[(0, 0) \<mapsto> ''SB'']" and l = "(1, 0)" and set_order = "\<lambda>cs. cs"
       and depth = 1000 and get_name_and_hop = example_decoder
       and types = "[''SB'' \<mapsto> hop_switchbox]"
       and routingdata = "[((0, 0), [street 0 0 0 1]), ((1, 0), [street 9 9 9 9])]"
       and dc = "[((0, 0), [(''OUT'', ((1, 0), ''H1L0''))])]" and dh = "[((1, 0), [])]"] g' h
  have 3: "map_of [((0 :: int, 0 :: int), [(''OUT'', ((1 :: int, 0 :: int), ''H1L0''))])] (1, 0) = None
      \<and> hops_at [((1, 0), [])] (1, 0) = []"
    by blast
  from g 1 2 e g' h 3 show ?thesis by simp
qed

section \<open>Idempotence of the unification\<close>

lemma remap_fixed_aux:
  "\<forall>m' \<in> snd ` set cs. t \<in> fromlocset m' \<longrightarrow> toloc m' = t \<Longrightarrow>
   remap_multiloc_loc cs t p c = t"
  by (induction cs) auto

lemma remap_range:
  "remap_multiloc_loc cs l p c = l \<or> (\<exists>m \<in> snd ` set cs. remap_multiloc_loc cs l p c = toloc m)"
proof (induction cs)
  case Nil
  then show ?case by simp
next
  case (Cons km cs)
  obtain k m where km: "km = (k, m)" by (cases km)
  show ?case
  proof (cases "remap_multiloc_loc (km # cs) l p c = toloc m")
    case True
    then show ?thesis using km by force
  next
    case False
    then have "remap_multiloc_loc (km # cs) l p c = remap_multiloc_loc cs l p c"
      using km by (simp split: if_splits)
    then show ?thesis using Cons.IH by force
  qed
qed

lemma remap_canonical:
  "canonical_fixed cells \<Longrightarrow> m \<in> snd ` set cells \<Longrightarrow>
   remap_multiloc_loc cells (toloc m) p c = toloc m"
  by (rule remap_fixed_aux) (auto simp: canonical_fixed_def)

lemma remap_idem:
  assumes "canonical_fixed cells"
  shows "remap_multiloc_loc cells (remap_multiloc_loc cells l p c) p c = remap_multiloc_loc cells l p c"
proof -
  from remap_range[of cells l p c] show ?thesis
  proof
    assume "remap_multiloc_loc cells l p c = l"
    then show ?thesis by simp
  next
    assume "\<exists>m \<in> snd ` set cells. remap_multiloc_loc cells l p c = toloc m"
    then obtain m where "m \<in> snd ` set cells" "remap_multiloc_loc cells l p c = toloc m" by auto
    then show ?thesis using remap_canonical[OF assms] by simp
  qed
qed

lemma update_with_aux_fresh:
  "k \<notin> fst ` set A \<Longrightarrow> AList.update_with_aux v k f A = A @ [(k, f v)]"
  by (induction A) auto

lemma update_with_aux_last:
  "k \<notin> fst ` set A \<Longrightarrow> AList.update_with_aux v k f (A @ [(k, x)]) = A @ [(k, f x)]"
  by (induction A) auto

lemma update_fresh: "k \<notin> fst ` set A \<Longrightarrow> AList.update k v A = A @ [(k, v)]"
  by (induction A) auto

lemma rebuild_inner:
  "l \<notin> fst ` set A \<Longrightarrow> distinct (map fst (c1 @ cs)) \<Longrightarrow>
   fold (\<lambda>kv. AList.update_with_aux [] l (AList.update (fst kv) (snd kv))) cs (A @ [(l, c1)])
   = A @ [(l, c1 @ cs)]"
proof (induction cs arbitrary: c1)
  case Nil
  then show ?case by simp
next
  case (Cons kv cs)
  have f: "fst kv \<notin> fst ` set c1" using Cons.prems(2) by auto
  have d: "distinct (map fst ((c1 @ [kv]) @ cs))" using Cons.prems(2) by auto
  have "AList.update_with_aux [] l (AList.update (fst kv) (snd kv)) (A @ [(l, c1)])
        = A @ [(l, c1 @ [kv])]"
    using Cons.prems(1) f by (simp add: update_with_aux_last update_fresh)
  then show ?case using Cons.IH[OF Cons.prems(1) d] by simp
qed

lemma rebuild_entry:
  assumes "l \<notin> fst ` set A" "cs \<noteq> []" "distinct (map fst cs)"
  shows "fold (\<lambda>kv. AList.update_with_aux [] l (AList.update (fst kv) (snd kv))) cs A = A @ [(l, cs)]"
proof -
  obtain kv cs' where c: "cs = kv # cs'" using assms(2) by (cases cs) auto
  have "AList.update_with_aux [] l (AList.update (fst kv) (snd kv)) A = A @ [(l, [kv])]"
    using assms(1) by (simp add: update_with_aux_fresh)
  moreover have "distinct (map fst ([kv] @ cs'))" using assms(3) c by simp
  ultimately show ?thesis using rebuild_inner[OF assms(1), of "[kv]" cs'] c by simp
qed


lemma rebuild_all:
  "distinct (map fst (A @ E)) \<Longrightarrow> \<forall>lc \<in> set E. snd lc \<noteq> [] \<and> distinct (map fst (snd lc)) \<Longrightarrow>
   fold (\<lambda>lc. fold (\<lambda>kv. AList.update_with_aux [] (fst lc) (AList.update (fst kv) (snd kv))) (snd lc)) E A
   = A @ E"
proof (induction E arbitrary: A)
  case Nil
  then show ?case by simp
next
  case (Cons lc E)
  have fr: "fst lc \<notin> fst ` set A" using Cons.prems(1) by auto
  have "fold (\<lambda>kv. AList.update_with_aux [] (fst lc) (AList.update (fst kv) (snd kv))) (snd lc) A
        = A @ [(fst lc, snd lc)]"
    using fr Cons.prems(2) by (intro rebuild_entry) auto
  then have 1: "fold (\<lambda>kv. AList.update_with_aux [] (fst lc) (AList.update (fst kv) (snd kv))) (snd lc) A
        = A @ [lc]" by simp
  have 2: "distinct (map fst ((A @ [lc]) @ E))" using Cons.prems(1) by simp
  have 3: "\<forall>lc \<in> set E. snd lc \<noteq> [] \<and> distinct (map fst (snd lc))" using Cons.prems(2) by simp
  show ?case using Cons.IH[OF 2 3] 1 by simp
qed

lemma unify_conn_fixed:
  "remap_multiloc_loc cells l (Some (fst kv)) None = l \<Longrightarrow>
   remap_multiloc_loc cells (fst (snd kv)) (Some (snd (snd kv))) None = fst (snd kv) \<Longrightarrow>
   unify_conn cells l kv = AList.update_with_aux [] l (AList.update (fst kv) (snd kv))"
  by (rule ext) (simp add: unify_conn_def)

lemma unify_connections_fixed:
  assumes "conns_wf E" "conns_fixed cells E"
  shows "unify_connections cells E = E"
proof -
  have "fold (\<lambda>(l, cs). fold (unify_conn cells l) cs) E []
      = fold (\<lambda>lc. fold (\<lambda>kv. AList.update_with_aux [] (fst lc) (AList.update (fst kv) (snd kv))) (snd lc)) E []"
  proof (rule fold_cong[OF refl refl])
    fix lc assume lc: "lc \<in> set E"
    have "fold (unify_conn cells (fst lc)) (snd lc)
        = fold (\<lambda>kv. AList.update_with_aux [] (fst lc) (AList.update (fst kv) (snd kv))) (snd lc)"
    proof (rule ext, rule fold_cong[OF refl refl])
      fix kv assume "kv \<in> set (snd lc)"
      with lc assms(2) show "unify_conn cells (fst lc) kv
          = AList.update_with_aux [] (fst lc) (AList.update (fst kv) (snd kv))"
        by (intro unify_conn_fixed) (auto simp: conns_fixed_def)
    qed
    then show "(case lc of (l, cs) \<Rightarrow> fold (unify_conn cells l) cs)
        = fold (\<lambda>kv. AList.update_with_aux [] (fst lc) (AList.update (fst kv) (snd kv))) (snd lc)"
      by (cases lc) simp
  qed
  also have "\<dots> = [] @ E"
    using assms(1) by (intro rebuild_all) (auto simp: conns_wf_def)
  finally show ?thesis by (simp add: unify_connections_def)
qed

lemma set_update_subset: "set (AList.update k v al) \<subseteq> insert (k, v) (set al)"
  by (induction al) auto

lemma unify_conn_invariant:
  assumes cf: "canonical_fixed cells" and wf: "conns_wf acc" and fx: "conns_fixed cells acc"
  shows "conns_wf (unify_conn cells l kv acc) \<and> conns_fixed cells (unify_conn cells l kv acc)"
proof -
  define k where "k = remap_multiloc_loc cells l (Some (fst kv)) None"
  define sl where "sl = remap_multiloc_loc cells (fst (snd kv)) (Some (snd (snd kv))) None"
  define old where "old = (case map_of acc k of None \<Rightarrow> [] | Some c \<Rightarrow> c)"
  define new where "new = AList.update (fst kv) (sl, snd (snd kv)) old"
  define res where "res = unify_conn cells l kv acc"
  have kk: "remap_multiloc_loc cells k (Some (fst kv)) None = k"
    unfolding k_def using cf by (rule remap_idem)
  have ss: "remap_multiloc_loc cells sl (Some (snd (snd kv))) None = sl"
    unfolding sl_def using cf by (rule remap_idem)
  have d: "distinct (map fst acc)" using wf by (simp add: conns_wf_def)
  have u: "res = AList.update_with_aux [] k (AList.update (fst kv) (sl, snd (snd kv))) acc"
    by (simp add: res_def unify_conn_def k_def sl_def)
  have "set res = set acc - {k} \<times> UNIV
        \<union> {(k, AList.update (fst kv) (sl, snd (snd kv)) (case map_of acc k of None \<Rightarrow> [] | Some c \<Rightarrow> c))}"
    unfolding u using d by (rule set_update_with_aux)
  then have s: "set res \<subseteq> insert (k, new) (set acc)"
    unfolding new_def old_def by blast
  have old_in: "old = [] \<or> (k, old) \<in> set acc"
  proof (cases "map_of acc k")
    case None
    then show ?thesis by (simp add: old_def)
  next
    case (Some c)
    then have "(k, c) \<in> set acc" by (rule map_of_SomeD)
    then show ?thesis using Some by (simp add: old_def)
  qed
  have acc_d: "\<And>l' c. (l', c) \<in> set acc \<Longrightarrow> c \<noteq> [] \<and> distinct (map fst c)"
    using wf unfolding conns_wf_def by fastforce
  have acc_f: "\<And>l' c e. (l', c) \<in> set acc \<Longrightarrow> e \<in> set c \<Longrightarrow>
        remap_multiloc_loc cells l' (Some (fst e)) None = l'
        \<and> remap_multiloc_loc cells (fst (snd e)) (Some (snd (snd e))) None = fst (snd e)"
    using fx unfolding conns_fixed_def by fastforce
  have old_d: "distinct (map fst old)"
    using old_in acc_d by (elim disjE) simp_all
  have new_d: "distinct (map fst new)" unfolding new_def using old_d by (rule distinct_update)
  have new_ne: "new \<noteq> []" unfolding new_def by simp
  have new_sub: "set new \<subseteq> insert (fst kv, (sl, snd (snd kv))) (set old)"
    unfolding new_def by (rule set_update_subset)
  have new_fixed: "\<And>e. e \<in> set new \<Longrightarrow>
        remap_multiloc_loc cells k (Some (fst e)) None = k
        \<and> remap_multiloc_loc cells (fst (snd e)) (Some (snd (snd e))) None = fst (snd e)"
  proof -
    fix e assume "e \<in> set new"
    then have "e = (fst kv, (sl, snd (snd kv))) \<or> e \<in> set old" using new_sub by blast
    then show "remap_multiloc_loc cells k (Some (fst e)) None = k
        \<and> remap_multiloc_loc cells (fst (snd e)) (Some (snd (snd e))) None = fst (snd e)"
    proof
      assume "e = (fst kv, (sl, snd (snd kv)))"
      then show ?thesis using kk ss by simp
    next
      assume e: "e \<in> set old"
      then have "(k, old) \<in> set acc" using old_in by (elim disjE) simp_all
      then show ?thesis using e by (rule acc_f)
    qed
  qed
  have mem: "\<And>lc. lc \<in> set res \<Longrightarrow> lc = (k, new) \<or> lc \<in> set acc" using s by blast
  have "conns_wf res"
    unfolding conns_wf_def
  proof (intro conjI ballI)
    show "distinct (map fst res)" unfolding u using d by simp
  next
    fix lc assume "lc \<in> set res"
    then have "lc = (k, new) \<or> lc \<in> set acc" by (rule mem)
    then show "snd lc \<noteq> []"
    proof
      assume "lc = (k, new)" then show ?thesis using new_ne by simp
    next
      assume "lc \<in> set acc" then show ?thesis using acc_d[of "fst lc" "snd lc"] by simp
    qed
  next
    fix lc assume "lc \<in> set res"
    then have "lc = (k, new) \<or> lc \<in> set acc" by (rule mem)
    then show "distinct (map fst (snd lc))"
    proof
      assume "lc = (k, new)" then show ?thesis using new_d by simp
    next
      assume "lc \<in> set acc" then show ?thesis using acc_d[of "fst lc" "snd lc"] by simp
    qed
  qed
  moreover have "conns_fixed cells res"
    unfolding conns_fixed_def
  proof (intro ballI)
    fix lc e assume "lc \<in> set res" and e: "e \<in> set (snd lc)"
    then have "lc = (k, new) \<or> lc \<in> set acc" using mem by blast
    then show "remap_multiloc_loc cells (fst lc) (Some (fst e)) None = fst lc
        \<and> remap_multiloc_loc cells (fst (snd e)) (Some (snd (snd e))) None = fst (snd e)"
    proof
      assume "lc = (k, new)"
      with e new_fixed[of e] show ?thesis by simp
    next
      assume "lc \<in> set acc"
      then show ?thesis using e acc_f[of "fst lc" "snd lc" e] by simp
    qed
  qed
  ultimately show ?thesis unfolding res_def by simp
qed

lemma fold_unify_conn_invariant:
  "canonical_fixed cells \<Longrightarrow> conns_wf acc \<and> conns_fixed cells acc \<Longrightarrow>
   conns_wf (fold (unify_conn cells l) cs acc) \<and> conns_fixed cells (fold (unify_conn cells l) cs acc)"
proof (induction cs arbitrary: acc)
  case Nil
  then show ?case by simp
next
  case (Cons kv cs)
  have "conns_wf (unify_conn cells l kv acc) \<and> conns_fixed cells (unify_conn cells l kv acc)"
    using Cons.prems by (intro unify_conn_invariant) simp_all
  from Cons.IH[OF Cons.prems(1) this] show ?case by simp
qed

lemma fold_unify_invariant:
  "canonical_fixed cells \<Longrightarrow> conns_wf acc \<and> conns_fixed cells acc \<Longrightarrow>
   conns_wf (fold (\<lambda>(l, cs). fold (unify_conn cells l) cs) d acc)
   \<and> conns_fixed cells (fold (\<lambda>(l, cs). fold (unify_conn cells l) cs) d acc)"
proof (induction d arbitrary: acc)
  case Nil
  then show ?case by simp
next
  case (Cons lc d)
  obtain l cs where lc: "lc = (l, cs)" by (cases lc)
  have "conns_wf (fold (unify_conn cells l) cs acc) \<and> conns_fixed cells (fold (unify_conn cells l) cs acc)"
    using Cons.prems by (rule fold_unify_conn_invariant)
  from Cons.IH[OF Cons.prems(1) this] show ?case using lc by simp
qed

lemma unify_connections_invariant:
  "canonical_fixed cells \<Longrightarrow>
   conns_wf (unify_connections cells d) \<and> conns_fixed cells (unify_connections cells d)"
  unfolding unify_connections_def
  by (rule fold_unify_invariant) (simp_all add: conns_wf_def conns_fixed_def)


text \<open>
  Claim C8, as stated, fails for the table \<open>overlapping_cells\<close>: the canonical location
  \<open>(2, 1)\<close> of its second mapping is remapped to \<open>(1, 1)\<close> for the pin \<open>A\<close>, and a
  connection that the first pass moves to \<open>(2, 1)\<close> is moved to \<open>(1, 1)\<close> by a second
  pass.
\<close>

theorem unification_counterexample:
  "toloc (snd (overlapping_cells ! 1)) = (2, 1)
   \<and> remap_multiloc_loc overlapping_cells (2, 1) (Some ''A'') None = (1, 1)
   \<and> unify_connections overlapping_cells [((2, 2), [(''A'', ((5, 5), ''X''))])]
       = [((2, 1), [(''A'', ((5, 5), ''X''))])]
   \<and> unify_connections overlapping_cells [((2, 1), [(''A'', ((5, 5), ''X''))])]
       = [((1, 1), [(''A'', ((5, 5), ''X''))])]"
  by (simp add: overlapping_cells_def unify_connections_def unify_conn_def)


text \<open>
  Claim C8, amended. For a table in which every canonical location that lies in the
  footprint of a mapping is the canonical location of that mapping, the unification of
  the connection map is idempotent: a second run of \<open>resolve_multiloc_cells\<close> leaves the
  connection map of the first run as it is, entry for entry and in the same order. Every
  canonical location is then a fixed point of the remapping, for every pin name and cell
  type, and the remapping itself is idempotent.
\<close>

theorem unification_idempotent:
  "canonical_fixed cells \<longrightarrow>
     designconnections (resolve_multiloc_cells cells (resolve_multiloc_cells cells self))
       = designconnections (resolve_multiloc_cells cells self)
     \<and> unify_connections cells (unify_connections cells d) = unify_connections cells d
     \<and> (\<forall>m \<in> snd ` set cells. remap_multiloc_loc cells (toloc m) pinname celltype = toloc m)
     \<and> remap_multiloc_loc cells (remap_multiloc_loc cells l pinname celltype) pinname celltype
         = remap_multiloc_loc cells l pinname celltype"
proof (intro impI conjI ballI)
  assume cf: "canonical_fixed cells"
  have idem: "\<And>d. unify_connections cells (unify_connections cells d) = unify_connections cells d"
  proof -
    fix d :: "(Loc \<times> string) conns"
    from unify_connections_invariant[OF cf, of d]
    show "unify_connections cells (unify_connections cells d) = unify_connections cells d"
      by (intro unify_connections_fixed) simp_all
  qed
  show "unify_connections cells (unify_connections cells d) = unify_connections cells d"
    by (rule idem)
  show "designconnections (resolve_multiloc_cells cells (resolve_multiloc_cells cells self))
       = designconnections (resolve_multiloc_cells cells self)"
    by (simp add: resolve_multiloc_cells_def idem)
  show "remap_multiloc_loc cells (remap_multiloc_loc cells l pinname celltype) pinname celltype
         = remap_multiloc_loc cells l pinname celltype"
    using cf by (rule remap_idem)
  fix m assume "m \<in> snd ` set cells"
  with cf show "remap_multiloc_loc cells (toloc m) pinname celltype = toloc m"
    by (rule remap_canonical)
qed

theorem unification_idempotent_witness:
  "canonical_fixed disjoint_cells
   \<and> unify_connections disjoint_cells
        [((1, 2), [(''A'', ((2, 2), ''WD''))]), ((2, 2), [(''WD'', ((1, 2), ''A''))])]
      = [((1, 1), [(''A'', ((2, 1), ''WD''))]), ((2, 1), [(''WD'', ((1, 1), ''A''))])]
   \<and> unify_connections disjoint_cells
        (unify_connections disjoint_cells
           [((1, 2), [(''A'', ((2, 2), ''WD''))]), ((2, 2), [(''WD'', ((1, 2), ''A''))])])
      = [((1, 1), [(''A'', ((2, 1), ''WD''))]), ((2, 1), [(''WD'', ((1, 1), ''A''))])]
   \<and> remap_multiloc_loc disjoint_cells (remap_multiloc_loc disjoint_cells (2, 2) (Some ''WD'') None)
        (Some ''WD'') None = (2, 1)"
proof -
  have cf: "canonical_fixed disjoint_cells"
    by (simp add: canonical_fixed_def disjoint_cells_def)
  have e: "unify_connections disjoint_cells
        [((1, 2), [(''A'', ((2, 2), ''WD''))]), ((2, 2), [(''WD'', ((1, 2), ''A''))])]
      = [((1, 1), [(''A'', ((2, 1), ''WD''))]), ((2, 1), [(''WD'', ((1, 1), ''A''))])]"
    by (simp add: disjoint_cells_def unify_connections_def unify_conn_def)
  have r: "remap_multiloc_loc disjoint_cells (2, 2) (Some ''WD'') None = (2, 1)"
    by (simp add: disjoint_cells_def)
  from unification_idempotent
    [of disjoint_cells _ "[((1, 2), [(''A'', ((2, 2), ''WD''))]), ((2, 2), [(''WD'', ((1, 2), ''A''))])]"
        "Some ''WD''" None "(2, 2)"] cf
  have "unify_connections disjoint_cells
        (unify_connections disjoint_cells
           [((1, 2), [(''A'', ((2, 2), ''WD''))]), ((2, 2), [(''WD'', ((1, 2), ''A''))])])
      = unify_connections disjoint_cells
           [((1, 2), [(''A'', ((2, 2), ''WD''))]), ((2, 2), [(''WD'', ((1, 2), ''A''))])]"
    and "remap_multiloc_loc disjoint_cells (remap_multiloc_loc disjoint_cells (2, 2) (Some ''WD'') None)
        (Some ''WD'') None = remap_multiloc_loc disjoint_cells (2, 2) (Some ''WD'') None"
    by blast+
  with cf e r show ?thesis by simp
qed

end
